theory Spec2Isabelle
  imports Main "HOL-Library.Sublist"
begin

section \<open>The extraction payload\<close>

text \<open>
  \<^verbatim>\<open>json.loads\<close> returns a Python value built from \<^verbatim>\<open>None\<close>, booleans, numbers, strings,
  lists and dicts. A dict is the list of its items in insertion order (the keys of a
  Python dict are distinct). Numbers are integers here: the code only tests a number for
  truth and a float behaves as an integer does there (zero is false, nothing else is).
\<close>

datatype json =
    JNull
  | JBool bool
  | JNum int
  | JStr string
  | JArr "json list"
  | JObj "(string \<times> json) list"

text \<open>Python's truth value, as used by \<^verbatim>\<open>if not x\<close> and \<^verbatim>\<open>if x := ...\<close>.\<close>

fun truthy :: "json \<Rightarrow> bool" where
  "truthy JNull = False"
| "truthy (JBool b) = b"
| "truthy (JNum n) = (n \<noteq> 0)"
| "truthy (JStr s) = (s \<noteq> [])"
| "truthy (JArr xs) = (xs \<noteq> [])"
| "truthy (JObj kvs) = (kvs \<noteq> [])"

text \<open>\<^verbatim>\<open>d.get(key, default)\<close> on a dict; \<^verbatim>\<open>d.get(key)\<close> is \<^verbatim>\<open>d.get(key, None)\<close>.\<close>

definition dict_get :: "(string \<times> json) list \<Rightarrow> string \<Rightarrow> json \<Rightarrow> json" where
  "dict_get kvs key dflt = (case map_of kvs key of None \<Rightarrow> dflt | Some v \<Rightarrow> v)"

datatype exn =
    AttributeError
  | TypeError
  | IntegrityError
  | ValueError

text \<open>
  \<^verbatim>\<open>for item_name in value\<close>: a list yields its elements, a string its characters (each a
  string of length one), a dict its keys; \<^verbatim>\<open>None\<close>, a boolean and a number are not
  iterable.
\<close>

fun iterate :: "json \<Rightarrow> exn + json list" where
  "iterate (JArr xs) = Inr xs"
| "iterate (JStr s) = Inr (map (\<lambda>c. JStr [c]) s)"
| "iterate (JObj kvs) = Inr (map (\<lambda>kv. JStr (fst kv)) kvs)"
| "iterate JNull = Inl TypeError"
| "iterate (JBool b) = Inl TypeError"
| "iterate (JNum n) = Inl TypeError"

section \<open>The store\<close>

text \<open>
  Modelled from the spec: the models of \<^verbatim>\<open>app.models\<close> (Project and the eight lookup
  models) are imported by the command and are not part of the sources. Section 3 of the
  specification gives their shape: a Project has an identifier, a name, a status, three
  optional single-valued references and five many-to-many relations; a lookup entity is
  a row with a name and nothing else. A table is the list of its rows in creation order
  and a row's primary key is its position (the pipeline never deletes a row). A column
  holds a value of type \<^typ>\<open>json\<close>: \<^term>\<open>JStr s\<close> for text, \<^term>\<open>JNull\<close> for NULL.
\<close>

datatype lookup =
    Sponsor
  | Deliverable
  | TherapeuticArea
  | IngredientCategory
  | Ingredient
  | ResponsibleParty
  | RouteOfAdmin
  | Demographics

datatype ref_field = sponsor | responsible_party | route_of_admin

datatype rel_field =
    deliverables
  | therapeutic_areas
  | ingredient_categories
  | ingredients
  | demographics

fun ref_model :: "ref_field \<Rightarrow> lookup" where
  "ref_model sponsor = Sponsor"
| "ref_model responsible_party = ResponsibleParty"
| "ref_model route_of_admin = RouteOfAdmin"

fun ref_key :: "ref_field \<Rightarrow> string" where
  "ref_key sponsor = ''sponsor_name''"
| "ref_key responsible_party = ''responsible_party''"
| "ref_key route_of_admin = ''route_of_admin''"

fun rel_model :: "rel_field \<Rightarrow> lookup" where
  "rel_model deliverables = Deliverable"
| "rel_model therapeutic_areas = TherapeuticArea"
| "rel_model ingredient_categories = IngredientCategory"
| "rel_model ingredients = Ingredient"
| "rel_model demographics = Demographics"

fun rel_key :: "rel_field \<Rightarrow> string" where
  "rel_key deliverables = ''deliverables''"
| "rel_key therapeutic_areas = ''therapeutic_areas''"
| "rel_key ingredient_categories = ''ingredient_categories''"
| "rel_key ingredients = ''ingredients''"
| "rel_key demographics = ''demographics''"

record project =
  project_id :: json
  project_name :: json
  project_status :: json
  refs :: "ref_field \<Rightarrow> nat option"

datatype stream = Stdout | Stderr

datatype message =
    Starting string
  | ProcessingDOCX string
  | ProcessingPDF string
  | ExtractingData
  | FailedToExtract string
  | SkippingNoProjectId string
  | CreatedNewProject json
  | FoundExistingProject json
  | SkippingExistingProject json
  | SuccessfullyProcessed json
  | DatabaseError string exn
  | ProcessingComplete

text \<open>
  The state the command works on: the three parts of the database (the Project table,
  the lookup tables, and for each relation the set of lookup rows linked to each
  project), and what has been written to the two output streams.
\<close>

record world =
  projects :: "project list"
  rows :: "lookup \<Rightarrow> json list"
  links :: "rel_field \<Rightarrow> nat \<Rightarrow> nat set"
  written :: "(stream \<times> message) list"

definition db :: "world \<Rightarrow> project list \<times> (lookup \<Rightarrow> json list) \<times> (rel_field \<Rightarrow> nat \<Rightarrow> nat set)" where
  "db w = (projects w, rows w, links w)"

definition write_line :: "stream \<Rightarrow> message \<Rightarrow> world \<Rightarrow> world" where
  "write_line st m w = w\<lparr>written := written w @ [(st, m)]\<rparr>"

text \<open>
  The field declarations of the missing models are a parameter: \<open>to_column M c v\<close> is
  what column \<open>c\<close> stores when it is given the Python value \<open>v\<close> (in a query or in a
  write), or the exception the field or the database raises for it;
  \<open>project_status_default M\<close> is the status of a Project created without one.
\<close>

datatype column = ProjectId | ProjectName | ProjectStatus | Name lookup

record models =
  to_column :: "column \<Rightarrow> json \<Rightarrow> exn + json"
  project_status_default :: json

text \<open>
  A step of the command takes the state and returns it changed, with either a value or
  the exception raised. The state at an exception is the state the step had reached:
  nothing in the command undoes a write.
\<close>

type_synonym 'a step = "world \<Rightarrow> (exn + 'a) \<times> world"

definition bind_step :: "'a step \<Rightarrow> ('a \<Rightarrow> 'b step) \<Rightarrow> 'b step" where
  "bind_step m f w = (case m w of (Inl e, w') \<Rightarrow> (Inl e, w') | (Inr a, w') \<Rightarrow> f a w')"

fun index_of :: "'a \<Rightarrow> 'a list \<Rightarrow> nat option" where
  "index_of x [] = None"
| "index_of x (y # ys) = (if y = x then Some 0 else map_option Suc (index_of x ys))"

text \<open>
  \<^verbatim>\<open>Model.objects.get_or_create(name=value)\<close> on a lookup model: find the row by name,
  else create it. The specification makes names unique, so the row found is the only one.
\<close>

definition get_or_create :: "models \<Rightarrow> lookup \<Rightarrow> json \<Rightarrow> nat step" where
  "get_or_create M L v w =
     (case to_column M (Name L) v of
        Inl e \<Rightarrow> (Inl e, w)
      | Inr x \<Rightarrow>
          (case index_of x (rows w L) of
             Some i \<Rightarrow> (Inr i, w)
           | None \<Rightarrow> (Inr (length (rows w L)), w\<lparr>rows := (rows w)(L := rows w L @ [x])\<rparr>)))"

fun index_of_project :: "json \<Rightarrow> project list \<Rightarrow> nat option" where
  "index_of_project k [] = None"
| "index_of_project k (p # ps) =
     (if project_id p = k then Some 0 else map_option Suc (index_of_project k ps))"

text \<open>
  \<^verbatim>\<open>Project.objects.get_or_create(project_id=..., defaults={'project_name': ...})\<close>. The
  object returned is the primary key with the attribute values: those of the row when it
  is found, those given when it is created.
\<close>

definition project_get_or_create :: "models \<Rightarrow> json \<Rightarrow> json \<Rightarrow> ((nat \<times> project) \<times> bool) step" where
  "project_get_or_create M project_id_val name_default w =
     (case to_column M ProjectId project_id_val of
        Inl e \<Rightarrow> (Inl e, w)
      | Inr k \<Rightarrow>
          (case index_of_project k (projects w) of
             Some i \<Rightarrow> (Inr ((i, projects w ! i), False), w)
           | None \<Rightarrow>
               (case to_column M ProjectName name_default of
                  Inl e \<Rightarrow> (Inl e, w)
                | Inr n \<Rightarrow>
                    (case to_column M ProjectStatus (project_status_default M) of
                       Inl e \<Rightarrow> (Inl e, w)
                     | Inr st \<Rightarrow>
                         (Inr ((length (projects w),
                                \<lparr>project_id = project_id_val, project_name = name_default,
                                 project_status = project_status_default M,
                                 refs = (\<lambda>f. None)\<rparr>), True),
                          w\<lparr>projects := projects w @
                               [\<lparr>project_id = k, project_name = n, project_status = st,
                                 refs = (\<lambda>f. None)\<rparr>]\<rparr>)))))"

text \<open>\<^verbatim>\<open>project.save()\<close>: the row of the object takes the object's attribute values.\<close>

definition save :: "models \<Rightarrow> nat \<times> project \<Rightarrow> unit step" where
  "save M obj w =
     (case to_column M ProjectId (project_id (snd obj)) of
        Inl e \<Rightarrow> (Inl e, w)
      | Inr k \<Rightarrow>
          (case to_column M ProjectName (project_name (snd obj)) of
             Inl e \<Rightarrow> (Inl e, w)
           | Inr n \<Rightarrow>
               (case to_column M ProjectStatus (project_status (snd obj)) of
                  Inl e \<Rightarrow> (Inl e, w)
                | Inr st \<Rightarrow>
                    (Inr (),
                     w\<lparr>projects := (projects w)[fst obj :=
                          \<lparr>project_id = k, project_name = n, project_status = st,
                           refs = refs (snd obj)\<rparr>]\<rparr>))))"

section \<open>The command\<close>

text \<open>
  Lines 163 to 175, once for each single-valued reference:
  \<^verbatim>\<open>if sponsor_name := extracted_data.get('sponsor_name'): ...\<close>
\<close>

definition set_reference :: "models \<Rightarrow> ref_field \<Rightarrow> (string \<times> json) list \<Rightarrow> nat \<times> project \<Rightarrow> (nat \<times> project) step" where
  "set_reference M f kvs obj w =
     (let v = dict_get kvs (ref_key f) JNull in
      if truthy v then
        bind_step (get_or_create M (ref_model f) v)
          (\<lambda>i w'. (Inr (fst obj, (snd obj)\<lparr>refs := (refs (snd obj))(f := Some i)\<rparr>), w')) w
      else (Inr obj, w))"

text \<open>\<^verbatim>\<open>project.deliverables.clear()\<close> and \<^verbatim>\<open>project.deliverables.add(item)\<close>.\<close>

definition clear :: "rel_field \<Rightarrow> nat \<Rightarrow> world \<Rightarrow> world" where
  "clear r pk w = w\<lparr>links := (links w)(r := (links w r)(pk := {}))\<rparr>"

definition add :: "rel_field \<Rightarrow> nat \<Rightarrow> nat \<Rightarrow> world \<Rightarrow> world" where
  "add r pk i w = w\<lparr>links := (links w)(r := (links w r)(pk := insert i (links w r pk)))\<rparr>"

fun add_all :: "models \<Rightarrow> rel_field \<Rightarrow> nat \<Rightarrow> json list \<Rightarrow> unit step" where
  "add_all M r pk [] w = (Inr (), w)"
| "add_all M r pk (item_name # rest) w =
     (case get_or_create M (rel_model r) item_name w of
        (Inl e, w') \<Rightarrow> (Inl e, w')
      | (Inr i, w') \<Rightarrow> add_all M r pk rest (add r pk i w'))"

text \<open>
  Lines 182 to 214, once for each many-to-many relation:
  \<^verbatim>\<open>if deliverables_list := extracted_data.get('deliverables', []): ...\<close>
\<close>

definition set_relation :: "models \<Rightarrow> rel_field \<Rightarrow> (string \<times> json) list \<Rightarrow> nat \<Rightarrow> unit step" where
  "set_relation M r kvs pk w =
     (let item_list = dict_get kvs (rel_key r) (JArr []) in
      if truthy item_list then
        (case iterate item_list of
           Inl e \<Rightarrow> (Inl e, clear r pk w)
         | Inr items \<Rightarrow> add_all M r pk items (clear r pk w))
      else (Inr (), w))"

text \<open>
  The command has the block of lines 163 to 165 three times and the block of lines 182 to
  186 five times, one after the other, each for its own field. The two functions below
  run a block for each field of a list, in the order of the list, and stop at the first
  exception, as the sequence of blocks does.
\<close>

fun set_references :: "models \<Rightarrow> ref_field list \<Rightarrow> (string \<times> json) list \<Rightarrow> nat \<times> project \<Rightarrow> (nat \<times> project) step" where
  "set_references M [] kvs obj w = (Inr obj, w)"
| "set_references M (f # fs) kvs obj w =
     (case set_reference M f kvs obj w of
        (Inl e, w') \<Rightarrow> (Inl e, w')
      | (Inr obj', w') \<Rightarrow> set_references M fs kvs obj' w')"

fun set_relations :: "models \<Rightarrow> rel_field list \<Rightarrow> (string \<times> json) list \<Rightarrow> nat \<Rightarrow> unit step" where
  "set_relations M [] kvs pk w = (Inr (), w)"
| "set_relations M (r # rs) kvs pk w =
     (case set_relation M r kvs pk w of
        (Inl e, w') \<Rightarrow> (Inl e, w')
      | (Inr u, w') \<Rightarrow> set_relations M rs kvs pk w')"

definition reference_fields :: "ref_field list" where
  "reference_fields = [sponsor, responsible_party, route_of_admin]"

definition relation_fields :: "rel_field list" where
  "relation_fields =
     [deliverables, therapeutic_areas, ingredient_categories, ingredients, demographics]"

datatype outcome = NoProjectId | Existing | Saved

text \<open>Lines 156 to 216: the fields, the references, the save and the relations.\<close>

definition apply_fields :: "models \<Rightarrow> (string \<times> json) list \<Rightarrow> nat \<times> project \<Rightarrow> outcome step" where
  "apply_fields M kvs obj =
     (let p = (snd obj)\<lparr>project_name := dict_get kvs ''project_name'' (project_name (snd obj)),
                        project_status := dict_get kvs ''project_status'' (project_status (snd obj))\<rparr>
      in
      bind_step (set_references M reference_fields kvs (fst obj, p)) (\<lambda>obj'.
      bind_step (save M obj') (\<lambda>u.
      bind_step (set_relations M relation_fields kvs (fst obj)) (\<lambda>u w.
        (Inr Saved, write_line Stdout (SuccessfullyProcessed (project_id p)) w)))))"

text \<open>
  Lines 137 to 216, the body of the \<^verbatim>\<open>try\<close>. The value returned says how the body
  was left: by the first \<^verbatim>\<open>continue\<close>, by the second, or at its end.
  \<^verbatim>\<open>extracted_data.get\<close> exists only on a dict.
\<close>

definition reconcile :: "models \<Rightarrow> bool \<Rightarrow> string \<Rightarrow> json \<Rightarrow> outcome step" where
  "reconcile M update_existing fname extracted_data w =
     (case extracted_data of
        JObj kvs \<Rightarrow>
          (let project_id_val = dict_get kvs ''project_id'' JNull in
           if \<not> truthy project_id_val then
             (Inr NoProjectId, write_line Stderr (SkippingNoProjectId fname) w)
           else
             bind_step
               (project_get_or_create M project_id_val (dict_get kvs ''project_name'' (JStr [])))
               (\<lambda>(obj, created) w'.
                  if created then
                    apply_fields M kvs obj (write_line Stdout (CreatedNewProject (project_id (snd obj))) w')
                  else if update_existing then
                    apply_fields M kvs obj (write_line Stdout (FoundExistingProject (project_id (snd obj))) w')
                  else
                    (Inr Existing, write_line Stderr (SkippingExistingProject (project_id (snd obj))) w'))
               w)
      | _ \<Rightarrow> (Inl AttributeError, w))"

text \<open>
  What the model service answered for a document. \<^verbatim>\<open>requests\<close> raised
  (connection, timeout, status, body not JSON), or the reply is an object that has no
  \<^verbatim>\<open>"response"\<close> key, or it has one: then \<open>Response r\<close> carries what
  \<^verbatim>\<open>json.loads\<close> makes of that string, \<open>None\<close> when it raises \<^verbatim>\<open>JSONDecodeError\<close>.
\<close>

datatype reply = RequestException | NoResponseKey | Response "json option"

text \<open>
  Lines 78 to 90. Without the key, \<^verbatim>\<open>response_data.get("response", "{}")\<close> is the
  string \<^verbatim>\<open>"{}"\<close>, which \<^verbatim>\<open>json.loads\<close> decodes to the empty dict.
\<close>

fun call_phi3_for_extraction :: "reply \<Rightarrow> json option" where
  "call_phi3_for_extraction RequestException = None"
| "call_phi3_for_extraction NoResponseKey = Some (JObj [])"
| "call_phi3_for_extraction (Response r) = r"

text \<open>
  A directory entry: its name, what the reader chosen by its extension returns for it
  (\<open>None\<close> when the reader fails), and what the model service answers for its text.
\<close>

record entry =
  file_name :: string
  reader_result :: "string option"
  model_reply :: reply

definition lower :: "string \<Rightarrow> string" where
  "lower s = map (\<lambda>c. case map_of (zip ''ABCDEFGHIJKLMNOPQRSTUVWXYZ'' ''abcdefghijklmnopqrstuvwxyz'') c of
                         None \<Rightarrow> c | Some l \<Rightarrow> l) s"

definition endswith :: "string \<Rightarrow> string \<Rightarrow> bool" where
  "endswith s t = (length t \<le> length s \<and> drop (length s - length t) s = t)"

text \<open>Lines 116 to 219: one turn of the loop.\<close>

definition process_file :: "models \<Rightarrow> bool \<Rightarrow> entry \<Rightarrow> world \<Rightarrow> world" where
  "process_file M update_existing e w =
     (let (raw_text, w1) =
            (if endswith (lower (file_name e)) ''.docx'' then
               (reader_result e, write_line Stdout (ProcessingDOCX (file_name e)) w)
             else if endswith (lower (file_name e)) ''.pdf'' then
               (reader_result e, write_line Stdout (ProcessingPDF (file_name e)) w)
             else (None, w))
      in
      if raw_text = None \<or> raw_text = Some [] then w1
      else
        (let w2 = write_line Stdout ExtractingData w1 in
         case call_phi3_for_extraction (model_reply e) of
           None \<Rightarrow> write_line Stderr (FailedToExtract (file_name e)) w2
         | Some extracted_data \<Rightarrow>
             if \<not> truthy extracted_data then write_line Stderr (FailedToExtract (file_name e)) w2
             else
               (case reconcile M update_existing (file_name e) extracted_data w2 of
                  (Inl ex, w3) \<Rightarrow> write_line Stderr (DatabaseError (file_name e) ex) w3
                | (Inr _, w3) \<Rightarrow> w3)))"

datatype command_error = CommandError string

text \<open>
  Lines 105 to 221; \<open>process_all\<close> is the loop. \<open>listing\<close> is
  \<^verbatim>\<open>os.listdir(directory_path)\<close>, \<open>None\<close> when the path is
  not a directory. The transaction around the command commits the state it returns; the
  only exception that leaves the command is raised before any write.
\<close>

fun process_all :: "models \<Rightarrow> bool \<Rightarrow> entry list \<Rightarrow> world \<Rightarrow> world" where
  "process_all M update_existing [] w = w"
| "process_all M update_existing (e # es) w =
     process_all M update_existing es (process_file M update_existing e w)"

definition handle :: "models \<Rightarrow> string \<Rightarrow> bool \<Rightarrow> entry list option \<Rightarrow> world \<Rightarrow> command_error + world" where
  "handle M directory_path update_existing listing w =
     (case listing of
        None \<Rightarrow> Inl (CommandError directory_path)
      | Some es \<Rightarrow>
          Inr (write_line Stdout ProcessingComplete
                 (process_all M update_existing es (write_line Stdout (Starting directory_path) w))))"

section \<open>Concrete models and states\<close>

text \<open>
  An instance of the missing field declarations, for evaluating the command: every column
  is a text column that stores a string as it is given and rejects any other value;
  with \<open>nullable\<close> the name and the status of a Project also take \<^verbatim>\<open>None\<close>.
\<close>

definition text_models :: "bool \<Rightarrow> models" where
  "text_models nullable =
     \<lparr>to_column = (\<lambda>c v. case v of
          JStr s \<Rightarrow> Inr (JStr s)
        | JNull \<Rightarrow>
            if nullable \<and> (c = ProjectName \<or> c = ProjectStatus) then Inr JNull
            else Inl IntegrityError
        | _ \<Rightarrow> Inl ValueError),
      project_status_default = JStr []\<rparr>"

definition empty_world :: world where
  "empty_world = \<lparr>projects = [], rows = (\<lambda>L. []), links = (\<lambda>r pk. {}), written = []\<rparr>"

text \<open>A document that is read and for which the model service returns \<open>payload\<close>.\<close>

definition document :: "string \<Rightarrow> json \<Rightarrow> entry" where
  "document fname payload =
     \<lparr>file_name = fname, reader_result = Some ''text'', model_reply = Response (Some payload)\<rparr>"

text \<open>
  A store with one Project, \<^verbatim>\<open>P-100\<close>, that has the two deliverables A and B.
\<close>

definition trial_world :: world where
  "trial_world =
     \<lparr>projects = [\<lparr>project_id = JStr ''P-100'', project_name = JStr ''Trial X'',
                    project_status = JStr ''Active'', refs = (\<lambda>f. None)\<rparr>],
      rows = (\<lambda>L. if L = Deliverable then [JStr ''A'', JStr ''B''] else []),
      links = (\<lambda>r pk. if r = deliverables \<and> pk = 0 then {0, 1} else {}),
      written = []\<rparr>"



definition string_relation :: entry where
  "string_relation =
     document ''p.docx'' (JObj [(''project_id'', JStr ''P-100''), (''deliverables'', JStr ''CD'')])"



section \<open>Notions used in the statements\<close>

text \<open>
  An entry is readable when its extension is one of the two the command knows and its
  reader returns some text: the entries that reach the model service. \<open>announce\<close> is
  what the command writes for such an entry before it calls the service. \<open>grows w w'\<close>
  says that \<open>w'\<close> has every table row and every output line of \<open>w\<close>, in place.
\<close>

definition readable :: "entry \<Rightarrow> bool" where
  "readable e \<longleftrightarrow>
     (endswith (lower (file_name e)) ''.docx'' \<or> endswith (lower (file_name e)) ''.pdf'') \<and>
     reader_result e \<noteq> None \<and> reader_result e \<noteq> Some []"

definition announce :: "entry \<Rightarrow> world \<Rightarrow> world" where
  "announce e w =
     write_line Stdout ExtractingData
       (write_line Stdout
          (if endswith (lower (file_name e)) ''.docx'' then ProcessingDOCX (file_name e)
           else ProcessingPDF (file_name e)) w)"

definition grows :: "world \<Rightarrow> world \<Rightarrow> bool" where
  "grows w w' \<longleftrightarrow>
     (\<forall>L. prefix (rows w L) (rows w' L)) \<and>
     length (projects w) \<le> length (projects w') \<and>
     prefix (written w) (written w')"

text \<open>
  \<open>row_of M L v w\<close> is the row of table \<open>L\<close> that holds the name given as \<open>v\<close>, if there
  is one: the row get-or-create returns for \<open>v\<close> once it exists. \<open>project_pk k w\<close> is the
  key of the Project a document with identifier \<open>k\<close> is reconciled into from \<open>w\<close>: the row
  that has the identifier, or the next free position when no row has it.
\<close>

definition row_of :: "models \<Rightarrow> lookup \<Rightarrow> json \<Rightarrow> world \<Rightarrow> nat option" where
  "row_of M L v w = (case to_column M (Name L) v of Inl e \<Rightarrow> None | Inr x \<Rightarrow> index_of x (rows w L))"

definition project_pk :: "json \<Rightarrow> world \<Rightarrow> nat" where
  "project_pk k w = (case index_of_project k (projects w) of None \<Rightarrow> length (projects w) | Some i \<Rightarrow> i)"



definition keeps_distinct :: "world \<Rightarrow> world \<Rightarrow> bool" where
  "keeps_distinct w w' \<longleftrightarrow> (\<forall>L. distinct (rows w L) \<longrightarrow> distinct (rows w' L))"

text \<open>
  \<open>stable_columns M\<close>: a value that a column has stored is stored unchanged when it is
  given to the column again, as happens when an object loaded from a row is saved.
\<close>

definition stable_columns :: "models \<Rightarrow> bool" where
  "stable_columns M \<longleftrightarrow> (\<forall>c v x. to_column M c v = Inr x \<longrightarrow> to_column M c x = Inr x)"

text \<open>
  \<open>same_columns M p q\<close>: the identifier, the name and the status of \<open>p\<close> are stored as
  those of \<open>q\<close> are. \<open>with_fields kvs p\<close> is the object after lines 157 and 158.
\<close>

definition same_columns :: "models \<Rightarrow> project \<Rightarrow> project \<Rightarrow> bool" where
  "same_columns M p q \<longleftrightarrow>
     to_column M ProjectId (project_id p) = to_column M ProjectId (project_id q) \<and>
     to_column M ProjectName (project_name p) = to_column M ProjectName (project_name q) \<and>
     to_column M ProjectStatus (project_status p) = to_column M ProjectStatus (project_status q)"

definition with_fields :: "(string \<times> json) list \<Rightarrow> project \<Rightarrow> project" where
  "with_fields kvs p =
     p\<lparr>project_name := dict_get kvs ''project_name'' (project_name p),
       project_status := dict_get kvs ''project_status'' (project_status p)\<rparr>"

text \<open>\<open>put_links r pk S w\<close> is \<open>w\<close> with \<open>S\<close> as the set of relation \<open>r\<close> of project \<open>pk\<close>.\<close>

definition put_links :: "rel_field \<Rightarrow> nat \<Rightarrow> nat set \<Rightarrow> world \<Rightarrow> world" where
  "put_links r pk S G = G\<lparr>links := (links G)(r := (links G r)(pk := S))\<rparr>"

section \<open>Basic facts\<close>

lemma projects_write_line [simp]: "projects (write_line st m w) = projects w"
  and rows_write_line [simp]: "rows (write_line st m w) = rows w"
  and links_write_line [simp]: "links (write_line st m w) = links w"
  and written_write_line [simp]: "written (write_line st m w) = written w @ [(st, m)]"
  by (simp_all add: write_line_def)

lemma db_write_line [simp]: "db (write_line st m w) = db w"
  by (simp add: db_def)

lemma db_announce [simp]: "db (announce e w) = db w"
  by (simp add: announce_def)

lemma readable_document [simp]:
  "readable (document fname payload) \<longleftrightarrow>
     endswith (lower fname) ''.docx'' \<or> endswith (lower fname) ''.pdf''"
  by (simp add: readable_def document_def)

lemma process_file_readable:
  assumes "readable e"
  shows "process_file M upd e w =
     (case call_phi3_for_extraction (model_reply e) of
        None \<Rightarrow> write_line Stderr (FailedToExtract (file_name e)) (announce e w)
      | Some extracted_data \<Rightarrow>
          if \<not> truthy extracted_data then write_line Stderr (FailedToExtract (file_name e)) (announce e w)
          else (case reconcile M upd (file_name e) extracted_data (announce e w) of
                  (Inl ex, w3) \<Rightarrow> write_line Stderr (DatabaseError (file_name e) ex) w3
                | (Inr oc, w3) \<Rightarrow> w3))"
  using assms by (auto simp: process_file_def readable_def announce_def Let_def split: option.splits)

lemma process_file_not_readable:
  assumes "\<not> readable e"
  shows "db (process_file M upd e w) = db w"
  using assms by (auto simp: process_file_def readable_def Let_def split: option.splits)


lemma index_of_project_Some:
  "index_of_project k ps = Some i \<Longrightarrow> i < length ps \<and> project_id (ps ! i) = k"
  by (induction ps arbitrary: i) (auto split: if_splits)


lemma grows_refl [simp]: "grows w w"
  by (simp add: grows_def)

lemma grows_trans: "grows w w1 \<Longrightarrow> grows w1 w2 \<Longrightarrow> grows w w2"
  unfolding grows_def by (meson prefix_order.trans le_trans)


lemma bind_stepE:
  assumes "bind_step m f w = (res, w')"
  obtains (raised) e where "m w = (Inl e, w')" "res = Inl e"
  | (returned) a w1 where "m w = (Inr a, w1)" "f a w1 = (res, w')"
  using assms by (auto simp: bind_step_def split: prod.splits sum.splits)

lemma grows_get_or_create: "get_or_create M L v w = (res, w') \<Longrightarrow> grows w w'"
  by (auto simp: get_or_create_def grows_def split: sum.splits option.splits)

lemma grows_set_reference: "set_reference M f kvs obj w = (res, w') \<Longrightarrow> grows w w'"
  by (auto simp: set_reference_def Let_def elim!: bind_stepE dest: grows_get_or_create split: if_splits)

lemma grows_set_references: "set_references M fs kvs obj w = (res, w') \<Longrightarrow> grows w w'"
proof (induction fs arbitrary: obj w)
  case Nil
  then show ?case by simp
next
  case (Cons f fs)
  then show ?case
    by (auto split: prod.splits sum.splits dest: grows_set_reference intro: grows_trans)
qed

lemma grows_save: "save M obj w = (res, w') \<Longrightarrow> grows w w'"
  by (auto simp: save_def grows_def split: sum.splits)

lemma grows_clear [simp]: "grows w (clear r pk w)"
  by (simp add: clear_def grows_def)

lemma grows_add [simp]: "grows w (add r pk i w)"
  by (simp add: add_def grows_def)

lemma grows_add_all: "add_all M r pk items w = (res, w') \<Longrightarrow> grows w w'"
proof (induction items arbitrary: w)
  case Nil
  then show ?case by simp
next
  case (Cons v items)
  then show ?case
    by (auto split: prod.splits sum.splits dest!: grows_get_or_create
        intro: grows_trans [OF _ grows_trans [OF grows_add]])
qed

lemma grows_set_relation: "set_relation M r kvs pk w = (res, w') \<Longrightarrow> grows w w'"
  by (auto simp: set_relation_def Let_def split: if_splits sum.splits
      dest!: grows_add_all intro: grows_trans [OF grows_clear])

lemma grows_set_relations: "set_relations M rs kvs pk w = (res, w') \<Longrightarrow> grows w w'"
proof (induction rs arbitrary: w)
  case Nil
  then show ?case by simp
next
  case (Cons r rs)
  then show ?case
    by (auto split: prod.splits sum.splits dest: grows_set_relation intro: grows_trans)
qed






lemmas run_defs =
  handle_def process_file_def document_def endswith_def lower_def empty_world_def trial_world_def
  reconcile_def dict_get_def bind_step_def project_get_or_create_def text_models_def
  apply_fields_def reference_fields_def relation_fields_def set_reference_def
  set_relation_def save_def get_or_create_def clear_def add_def Let_def

lemma rel_model_inj [simp]: "rel_model r = rel_model r' \<longleftrightarrow> r = r'"
  by (cases r; cases r') simp_all

lemma ref_model_inj [simp]: "ref_model f = ref_model f' \<longleftrightarrow> f = f'"
  by (cases f; cases f') simp_all

lemma rel_model_not_ref_model [simp]: "rel_model r \<noteq> ref_model f" "ref_model f \<noteq> rel_model r"
  by (cases r; cases f; simp)+



lemma index_of_append: "index_of x xs = Some i \<Longrightarrow> index_of x (xs @ ys) = Some i"
  by (induction xs arbitrary: i) (auto split: if_splits)

lemma index_of_append_new: "index_of x xs = None \<Longrightarrow> index_of x (xs @ [x]) = Some (length xs)"
  by (induction xs) (auto split: if_splits)

lemma index_of_prefix: "index_of x xs = Some i \<Longrightarrow> prefix xs zs \<Longrightarrow> index_of x zs = Some i"
  by (auto simp: prefix_def index_of_append)

text \<open>What one get-or-create does.\<close>

lemma get_or_create_raises:
  "get_or_create M L v w = (Inl e, w') \<Longrightarrow> w' = w \<and> to_column M (Name L) v = Inl e"
  by (auto simp: get_or_create_def split: sum.splits option.splits)

lemma get_or_create_returns:
  assumes "get_or_create M L v w = (Inr i, w')"
  shows "projects w' = projects w" "links w' = links w" "written w' = written w"
    "\<And>L'. L' \<noteq> L \<Longrightarrow> rows w' L' = rows w L'"
    "row_of M L v w' = Some i"
  using assms
  by (auto simp: get_or_create_def row_of_def index_of_append_new split: sum.splits option.splits)

lemma row_of_grows: "row_of M L v w = Some i \<Longrightarrow> grows w w' \<Longrightarrow> row_of M L v w' = Some i"
  by (auto simp: row_of_def grows_def split: sum.splits intro: index_of_prefix)

lemma add_all_frame:
  assumes "add_all M r pk items w = (res, w')"
  shows "projects w' = projects w"
    "\<And>L. L \<noteq> rel_model r \<Longrightarrow> rows w' L = rows w L"
    "\<And>r'. r' \<noteq> r \<Longrightarrow> links w' r' = links w r'"
    "\<And>pk'. pk' \<noteq> pk \<Longrightarrow> links w' r pk' = links w r pk'"
  using assms
proof (induction items arbitrary: w)
  case Nil
  { case 1 then show ?case by simp }
  { case 2 then show ?case by simp }
  { case 3 then show ?case by simp }
  { case 4 then show ?case by simp }
next
  case (Cons v items)
  { case 1 then show ?case
      using Cons.IH(1) by (auto split: prod.splits sum.splits simp: add_def
          dest: get_or_create_raises get_or_create_returns(1)) }
  { case 2 then show ?case
      using Cons.IH(2) by (auto split: prod.splits sum.splits simp: add_def
          dest: get_or_create_raises get_or_create_returns(4)) }
  { case 3 then show ?case
      using Cons.IH(3) by (auto split: prod.splits sum.splits simp: add_def
          dest: get_or_create_raises get_or_create_returns(2)) }
  { case 4 then show ?case
      using Cons.IH(4) by (auto split: prod.splits sum.splits simp: add_def
          dest: get_or_create_raises get_or_create_returns(2)) }
qed

lemma add_all_returns:
  assumes "add_all M r pk items w = (Inr u, w')"
  shows "links w' r pk = links w r pk \<union> {i. \<exists>v\<in>set items. row_of M (rel_model r) v w' = Some i}"
    and "\<forall>v\<in>set items. row_of M (rel_model r) v w' \<noteq> None"
  using assms
proof (induction items arbitrary: w)
  case Nil
  { case 1 then show ?case by simp }
  { case 2 then show ?case by simp }
next
  case (Cons v items)
  { case 1
    then obtain i w1 where g: "get_or_create M (rel_model r) v w = (Inr i, w1)"
      and a: "add_all M r pk items (add r pk i w1) = (Inr u, w')"
      by (auto split: prod.splits sum.splits)
    have "grows (add r pk i w1) w'" using a by (rule grows_add_all)
    then have "grows w1 w'" by (rule grows_trans [OF grows_add])
    then have v: "row_of M (rel_model r) v w' = Some i"
      using get_or_create_returns(5) [OF g] row_of_grows by blast
    have "links (add r pk i w1) r pk = insert i (links w r pk)"
      using get_or_create_returns(2) [OF g] by (simp add: add_def)
    with Cons.IH(1) [OF a] v show ?case by auto }
  { case 2
    then obtain i w1 where g: "get_or_create M (rel_model r) v w = (Inr i, w1)"
      and a: "add_all M r pk items (add r pk i w1) = (Inr u, w')"
      by (auto split: prod.splits sum.splits)
    have "grows (add r pk i w1) w'" using a by (rule grows_add_all)
    then have "grows w1 w'" by (rule grows_trans [OF grows_add])
    then have v: "row_of M (rel_model r) v w' = Some i"
      using get_or_create_returns(5) [OF g] row_of_grows by blast
    with Cons.IH(2) [OF a] show ?case by auto }
qed

lemma set_relation_frame:
  assumes "set_relation M r kvs pk w = (res, w')"
  shows "projects w' = projects w"
    "\<And>L. L \<noteq> rel_model r \<Longrightarrow> rows w' L = rows w L"
    "\<And>r'. r' \<noteq> r \<Longrightarrow> links w' r' = links w r'"
    "\<And>pk'. pk' \<noteq> pk \<Longrightarrow> links w' r pk' = links w r pk'"
    "\<not> truthy (dict_get kvs (rel_key r) (JArr [])) \<Longrightarrow> w' = w"
  using assms
  by (auto simp: set_relation_def Let_def clear_def split: if_splits sum.splits
      dest: add_all_frame)

lemma set_relation_returns:
  assumes "set_relation M r kvs pk w = (Inr u, w')"
    and "truthy (dict_get kvs (rel_key r) (JArr []))"
  shows "\<exists>items. iterate (dict_get kvs (rel_key r) (JArr [])) = Inr items \<and>
           links w' r pk = {i. \<exists>v\<in>set items. row_of M (rel_model r) v w' = Some i} \<and>
           (\<forall>v\<in>set items. row_of M (rel_model r) v w' \<noteq> None)"
proof -
  from assms obtain items where it: "iterate (dict_get kvs (rel_key r) (JArr [])) = Inr items"
    and a: "add_all M r pk items (clear r pk w) = (Inr u, w')"
    by (auto simp: set_relation_def Let_def split: if_splits sum.splits)
  have "links (clear r pk w) r pk = {}" by (simp add: clear_def)
  with add_all_returns [OF a] it show ?thesis by simp
qed

lemma set_relations_frame:
  assumes "set_relations M rs kvs pk w = (res, w')"
  shows "projects w' = projects w"
    "\<And>L. L \<notin> rel_model ` set rs \<Longrightarrow> rows w' L = rows w L"
    "\<And>r. r \<notin> set rs \<or> \<not> truthy (dict_get kvs (rel_key r) (JArr [])) \<Longrightarrow> links w' r = links w r"
    "\<And>r. \<not> truthy (dict_get kvs (rel_key r) (JArr [])) \<Longrightarrow> rows w' (rel_model r) = rows w (rel_model r)"
    "\<And>r pk'. pk' \<noteq> pk \<Longrightarrow> links w' r pk' = links w r pk'"
  using assms
proof (induction rs arbitrary: w)
  case Nil
  { case 1 then show ?case by simp }
  { case 2 then show ?case by simp }
  { case 3 then show ?case by simp }
  { case 4 then show ?case by simp }
  { case 5 then show ?case by simp }
next
  case (Cons r' rs)
  { case 1 then show ?case
      using Cons.IH(1) by (auto split: prod.splits sum.splits dest: set_relation_frame(1)) }
  { case 2 then show ?case
      using Cons.IH(2) [of L] by (auto split: prod.splits sum.splits dest: set_relation_frame(2)) }
  { case (3 r)
    from 3(2) obtain res1 w1 where s: "set_relation M r' kvs pk w = (res1, w1)"
      and c: "(\<exists>e. res1 = Inl e \<and> w' = w1) \<or> set_relations M rs kvs pk w1 = (res, w')"
      by (auto split: prod.splits sum.splits)
    have 1: "links w1 r = links w r"
    proof (cases "r = r'")
      case True
      with 3(1) have "\<not> truthy (dict_get kvs (rel_key r') (JArr []))" by auto
      then show ?thesis using set_relation_frame(5) [OF s] by simp
    next
      case False
      then show ?thesis using set_relation_frame(3) [OF s] by simp
    qed
    from c show ?case
    proof
      assume "\<exists>e. res1 = Inl e \<and> w' = w1"
      with 1 show ?thesis by auto
    next
      assume "set_relations M rs kvs pk w1 = (res, w')"
      from Cons.IH(3) [OF _ this, of r] 3(1) 1 show ?thesis by auto
    qed }
  { case (4 r)
    from 4(2) obtain res1 w1 where s: "set_relation M r' kvs pk w = (res1, w1)"
      and c: "(\<exists>e. res1 = Inl e \<and> w' = w1) \<or> set_relations M rs kvs pk w1 = (res, w')"
      by (auto split: prod.splits sum.splits)
    have 1: "rows w1 (rel_model r) = rows w (rel_model r)"
    proof (cases "r = r'")
      case True
      with 4(1) show ?thesis using set_relation_frame(5) [OF s] by simp
    next
      case False
      then show ?thesis using set_relation_frame(2) [OF s, of "rel_model r"] by simp
    qed
    from c show ?case
    proof
      assume "\<exists>e. res1 = Inl e \<and> w' = w1"
      with 1 show ?thesis by auto
    next
      assume "set_relations M rs kvs pk w1 = (res, w')"
      from Cons.IH(4) [OF 4(1) this] 1 show ?thesis by auto
    qed }
  { case (5 r pk')
    from 5(2) obtain res1 w1 where s: "set_relation M r' kvs pk w = (res1, w1)"
      and c: "(\<exists>e. res1 = Inl e \<and> w' = w1) \<or> set_relations M rs kvs pk w1 = (res, w')"
      by (auto split: prod.splits sum.splits)
    have 1: "links w1 r pk' = links w r pk'"
      using set_relation_frame(3,4) [OF s] 5(1) by (cases "r = r'") auto
    from c show ?case
    proof
      assume "\<exists>e. res1 = Inl e \<and> w' = w1"
      with 1 show ?thesis by auto
    next
      assume "set_relations M rs kvs pk w1 = (res, w')"
      from Cons.IH(5) [OF 5(1) this] 1 show ?thesis by auto
    qed }
qed

lemma row_of_cong: "rows w' L = rows w L \<Longrightarrow> row_of M L v w' = row_of M L v w"
  by (simp add: row_of_def split: sum.splits)

lemma set_relations_returns:
  assumes "set_relations M rs kvs pk w = (Inr u, w')"
    and "distinct rs" and "r \<in> set rs"
    and "truthy (dict_get kvs (rel_key r) (JArr []))"
  shows "\<exists>items. iterate (dict_get kvs (rel_key r) (JArr [])) = Inr items \<and>
           links w' r pk = {i. \<exists>v\<in>set items. row_of M (rel_model r) v w' = Some i} \<and>
           (\<forall>v\<in>set items. row_of M (rel_model r) v w' \<noteq> None)"
  using assms
proof (induction rs arbitrary: w)
  case Nil
  then show ?case by simp
next
  case (Cons r' rs)
  from Cons.prems(1) obtain u1 w1 where s: "set_relation M r' kvs pk w = (Inr u1, w1)"
    and t: "set_relations M rs kvs pk w1 = (Inr u, w')"
    by (auto split: prod.splits sum.splits)
  show ?case
  proof (cases "r = r'")
    case True
    with Cons.prems(2) have n: "r \<notin> set rs" by simp
    then have "rel_model r \<notin> rel_model ` set rs" by auto
    then have "rows w' (rel_model r) = rows w1 (rel_model r)"
      by (rule set_relations_frame(2) [OF t])
    then have 1: "\<And>v. row_of M (rel_model r) v w' = row_of M (rel_model r) v w1"
      by (rule row_of_cong)
    have 2: "links w' r = links w1 r"
      using set_relations_frame(3) [OF t] n by blast
    from set_relation_returns [OF s [unfolded True [symmetric]] Cons.prems(4)] 1 2
    show ?thesis by simp
  next
    case False
    with Cons.prems have "distinct rs" "r \<in> set rs" by auto
    from Cons.IH [OF t this Cons.prems(4)] show ?thesis .
  qed
qed

lemma set_reference_frame:
  assumes "set_reference M f kvs obj w = (res, w')"
  shows "projects w' = projects w" "links w' = links w"
    "\<And>L. L \<noteq> ref_model f \<Longrightarrow> rows w' L = rows w L"
  using assms
  by (auto simp: set_reference_def Let_def get_or_create_def bind_step_def
      split: if_splits sum.splits option.splits)

lemma set_references_frame:
  assumes "set_references M fs kvs obj w = (res, w')"
  shows "projects w' = projects w" "links w' = links w"
    "\<And>L. L \<notin> ref_model ` set fs \<Longrightarrow> rows w' L = rows w L"
  using assms
proof (induction fs arbitrary: obj w)
  case Nil
  { case 1 then show ?case by simp }
  { case 2 then show ?case by simp }
  { case 3 then show ?case by simp }
next
  case (Cons f fs)
  { case 1 then show ?case
      using Cons.IH(1) by (auto split: prod.splits sum.splits dest: set_reference_frame(1)) }
  { case 2 then show ?case
      using Cons.IH(2) by (auto split: prod.splits sum.splits dest: set_reference_frame(2)) }
  { case 3 then show ?case
      using Cons.IH(3) [of L] by (auto split: prod.splits sum.splits dest: set_reference_frame(3)) }
qed

lemma save_frame:
  assumes "save M obj w = (res, w')"
  shows "rows w' = rows w" "links w' = links w" "length (projects w') = length (projects w)"
    "\<And>i. i \<noteq> fst obj \<Longrightarrow> projects w' ! i = projects w ! i"
  using assms by (auto simp: save_def split: sum.splits)

lemma project_get_or_create_frame:
  assumes "project_get_or_create M v n w = (res, w')"
  shows "rows w' = rows w" "links w' = links w"
    "\<And>i. i < length (projects w) \<Longrightarrow> projects w' ! i = projects w ! i"
  using assms
  by (auto simp: project_get_or_create_def nth_append split: sum.splits option.splits)

lemma project_get_or_create_returns:
  assumes "project_get_or_create M v n w = (Inr ((pk, p), created), w')"
  shows "\<exists>k. to_column M ProjectId v = Inr k \<and> pk = project_pk k w \<and> pk < length (projects w') \<and>
           (created \<longleftrightarrow> index_of_project k (projects w) = None)"
  using assms
  by (auto simp: project_get_or_create_def project_pk_def split: sum.splits option.splits
      dest: index_of_project_Some)

text \<open>The shape of a reconciliation that ends with the save and the five relations done.\<close>

lemma reconcile_SavedE:
  assumes "reconcile M upd fname (JObj kvs) w = (Inr Saved, w')"
  obtains k w1 w2 where
    "truthy (dict_get kvs ''project_id'' JNull)"
    "to_column M ProjectId (dict_get kvs ''project_id'' JNull) = Inr k"
    "upd \<or> index_of_project k (projects w) = None"
    "links w1 = links w"
    "\<And>r. rows w1 (rel_model r) = rows w (rel_model r)"
    "set_relations M relation_fields kvs (project_pk k w) w1 = (Inr (), w2)"
    "rows w' = rows w2" "links w' = links w2" "projects w' = projects w2"
proof -
  let ?pid = "dict_get kvs ''project_id'' JNull"
  have t: "truthy ?pid"
    using assms by (auto simp: reconcile_def Let_def split: if_splits)
  with assms obtain pk p created w0 where
    g: "project_get_or_create M ?pid (dict_get kvs ''project_name'' (JStr [])) w = (Inr ((pk, p), created), w0)"
    and c: "created \<or> upd"
    and a: "apply_fields M kvs (pk, p)
              (write_line Stdout (if created then CreatedNewProject (project_id p)
                                  else FoundExistingProject (project_id p)) w0) = (Inr Saved, w')"
    by (auto simp: reconcile_def Let_def elim!: bind_stepE split: if_splits)
  from project_get_or_create_returns [OF g] obtain k where
    k: "to_column M ProjectId ?pid = Inr k" "pk = project_pk k w"
       "created \<longleftrightarrow> index_of_project k (projects w) = None"
    by blast
  let ?w0 = "write_line Stdout (if created then CreatedNewProject (project_id p)
                                  else FoundExistingProject (project_id p)) w0"
  from a obtain obj' wa wb wc where
    r: "set_references M reference_fields kvs
          (pk, p\<lparr>project_name := dict_get kvs ''project_name'' (project_name p),
                   project_status := dict_get kvs ''project_status'' (project_status p)\<rparr>) ?w0 = (Inr obj', wa)"
    and s: "save M obj' wa = (Inr (), wb)"
    and m: "set_relations M relation_fields kvs pk wb = (Inr (), wc)"
    and w': "w' = write_line Stdout (SuccessfullyProcessed (project_id p)) wc"
    unfolding apply_fields_def Let_def by (auto elim!: bind_stepE)
  have l: "links wb = links w"
    using save_frame(2) [OF s] set_references_frame(2) [OF r] project_get_or_create_frame(2) [OF g]
    by simp
  have rw: "rows wb (rel_model r) = rows w (rel_model r)" for r
  proof -
    have "rel_model r \<notin> ref_model ` set reference_fields" by auto
    from set_references_frame(3) [OF r this] save_frame(1) [OF s] project_get_or_create_frame(1) [OF g]
    show ?thesis by simp
  qed
  show ?thesis
    using that [OF t k(1) _ l rw m [unfolded k(2)]] c k(3) w' by auto
qed

lemma apply_fields_frame:
  assumes "apply_fields M kvs obj w = (res, w')"
    and "\<not> truthy (dict_get kvs (rel_key r) (JArr []))"
  shows "rows w' (rel_model r) = rows w (rel_model r)" "links w' r = links w r"
proof -
  have n: "rel_model r \<notin> ref_model ` set reference_fields" by auto
  from assms(1) have "rows w' (rel_model r) = rows w (rel_model r) \<and> links w' r = links w r"
    unfolding apply_fields_def Let_def
  proof (elim bind_stepE, goal_cases)
    case (1 e)
    from set_references_frame(2,3) [OF 1(1)] n show ?case by simp
  next
    case (2 a w1 e)
    from set_references_frame(2,3) [OF 2(1)] save_frame(1,2) [OF 2(2)] n show ?case by simp
  next
    case (3 a w1 u w2 e)
    from set_references_frame(2,3) [OF 3(1)] save_frame(1,2) [OF 3(2)]
      set_relations_frame(3,4) [OF 3(3), of r] assms(2) n show ?case by simp
  next
    case (4 a w1 u w2 u' w3)
    from set_references_frame(2,3) [OF 4(1)] save_frame(1,2) [OF 4(2)]
      set_relations_frame(3,4) [OF 4(3), of r] assms(2) n 4(4) show ?case by auto
  qed
  then show "rows w' (rel_model r) = rows w (rel_model r)" "links w' r = links w r" by simp_all
qed

lemma reconcile_frame:
  assumes "reconcile M upd fname (JObj kvs) w = (res, w')"
    and "\<not> truthy (dict_get kvs (rel_key r) (JArr []))"
  shows "rows w' (rel_model r) = rows w (rel_model r) \<and> links w' r = links w r"
proof (cases "truthy (dict_get kvs ''project_id'' JNull)")
  case False
  with assms(1) show ?thesis by (auto simp: reconcile_def)
next
  case True
  let ?g = "project_get_or_create M (dict_get kvs ''project_id'' JNull)
              (dict_get kvs ''project_name'' (JStr []))"
  from assms(1) True have "bind_step ?g
      (\<lambda>(obj, created) w'.
          if created then
            apply_fields M kvs obj (write_line Stdout (CreatedNewProject (project_id (snd obj))) w')
          else if upd then
            apply_fields M kvs obj (write_line Stdout (FoundExistingProject (project_id (snd obj))) w')
          else
            (Inr Existing, write_line Stderr (SkippingExistingProject (project_id (snd obj))) w'))
      w = (res, w')"
    by (simp add: reconcile_def Let_def)
  then show ?thesis
  proof (cases rule: bind_stepE)
    case (raised e)
    from project_get_or_create_frame(1,2) [OF raised(1)] show ?thesis by simp
  next
    case (returned a w1)
    obtain obj created where a: "a = (obj, created)" by (cases a)
    from project_get_or_create_frame(1,2) [OF returned(1)] have 0: "rows w1 = rows w" "links w1 = links w" .
    show ?thesis
    proof (cases "created \<or> upd")
      case True
      with returned(2) a obtain m where "apply_fields M kvs obj (write_line Stdout m w1) = (res, w')"
        by (auto split: if_splits)
      from apply_fields_frame [OF this assms(2)] 0 show ?thesis by simp
    next
      case False
      with returned(2) a 0 show ?thesis by auto
    qed
  qed
qed


lemma set_reference_returns:
  assumes "set_reference M f kvs obj w = (Inr obj', w')"
  shows "fst obj' = fst obj"
    "project_id (snd obj') = project_id (snd obj)"
    "project_name (snd obj') = project_name (snd obj)"
    "project_status (snd obj') = project_status (snd obj)"
    "\<And>f'. f' \<noteq> f \<Longrightarrow> refs (snd obj') f' = refs (snd obj) f'"
    "\<not> truthy (dict_get kvs (ref_key f) JNull) \<Longrightarrow> refs (snd obj') f = refs (snd obj) f"
    "truthy (dict_get kvs (ref_key f) JNull) \<Longrightarrow>
       refs (snd obj') f = row_of M (ref_model f) (dict_get kvs (ref_key f) JNull) w' \<and>
       row_of M (ref_model f) (dict_get kvs (ref_key f) JNull) w' \<noteq> None"
  using assms
  by (auto simp: set_reference_def Let_def elim!: bind_stepE split: if_splits
      dest: get_or_create_returns(5))

lemma set_references_returns:
  assumes "set_references M fs kvs obj w = (Inr obj', w')"
  shows "fst obj' = fst obj"
    "project_id (snd obj') = project_id (snd obj)"
    "project_name (snd obj') = project_name (snd obj)"
    "project_status (snd obj') = project_status (snd obj)"
    "\<And>f. f \<notin> set fs \<or> \<not> truthy (dict_get kvs (ref_key f) JNull) \<Longrightarrow>
       refs (snd obj') f = refs (snd obj) f"
    "\<And>f. f \<in> set fs \<Longrightarrow> truthy (dict_get kvs (ref_key f) JNull) \<Longrightarrow>
       refs (snd obj') f = row_of M (ref_model f) (dict_get kvs (ref_key f) JNull) w' \<and>
       row_of M (ref_model f) (dict_get kvs (ref_key f) JNull) w' \<noteq> None"
  using assms
proof (induction fs arbitrary: obj w)
  case Nil
  { case 1 then show ?case by simp }
  { case 2 then show ?case by simp }
  { case 3 then show ?case by simp }
  { case 4 then show ?case by simp }
  { case 5 then show ?case by simp }
  { case 6 then show ?case by simp }
next
  case (Cons f0 fs)
  { case 1
    then obtain obj1 w1 where s: "set_reference M f0 kvs obj w = (Inr obj1, w1)"
      and t: "set_references M fs kvs obj1 w1 = (Inr obj', w')"
      by (auto split: prod.splits sum.splits)
    from Cons.IH(1) [OF t] set_reference_returns(1) [OF s] show ?case by simp }
  { case 2
    then obtain obj1 w1 where s: "set_reference M f0 kvs obj w = (Inr obj1, w1)"
      and t: "set_references M fs kvs obj1 w1 = (Inr obj', w')"
      by (auto split: prod.splits sum.splits)
    from Cons.IH(2) [OF t] set_reference_returns(2) [OF s] show ?case by simp }
  { case 3
    then obtain obj1 w1 where s: "set_reference M f0 kvs obj w = (Inr obj1, w1)"
      and t: "set_references M fs kvs obj1 w1 = (Inr obj', w')"
      by (auto split: prod.splits sum.splits)
    from Cons.IH(3) [OF t] set_reference_returns(3) [OF s] show ?case by simp }
  { case 4
    then obtain obj1 w1 where s: "set_reference M f0 kvs obj w = (Inr obj1, w1)"
      and t: "set_references M fs kvs obj1 w1 = (Inr obj', w')"
      by (auto split: prod.splits sum.splits)
    from Cons.IH(4) [OF t] set_reference_returns(4) [OF s] show ?case by simp }
  { case (5 f)
    from 5(2) obtain obj1 w1 where s: "set_reference M f0 kvs obj w = (Inr obj1, w1)"
      and t: "set_references M fs kvs obj1 w1 = (Inr obj', w')"
      by (auto split: prod.splits sum.splits)
    from 5(1) have a: "f \<notin> set fs \<or> \<not> truthy (dict_get kvs (ref_key f) JNull)" by auto
    from 5(1) have b: "refs (snd obj1) f = refs (snd obj) f"
      using set_reference_returns(5,6) [OF s] by (cases "f = f0") auto
    from Cons.IH(5) [OF a t] b show ?case by simp }
  { case (6 f)
    from 6(3) obtain obj1 w1 where s: "set_reference M f0 kvs obj w = (Inr obj1, w1)"
      and t: "set_references M fs kvs obj1 w1 = (Inr obj', w')"
      by (auto split: prod.splits sum.splits)
    show ?case
    proof (cases "f \<in> set fs")
      case True
      from Cons.IH(6) [OF True 6(2) t] show ?thesis .
    next
      case False
      with 6(1) have f: "f = f0" by simp
      from Cons.IH(5) [OF _ t, of f] False have 1: "refs (snd obj') f = refs (snd obj1) f" by simp
      from set_reference_returns(7) [OF s] 6(2) f obtain i where
        2: "refs (snd obj1) f = Some i" "row_of M (ref_model f) (dict_get kvs (ref_key f) JNull) w1 = Some i"
        by auto
      have "grows w1 w'" using t by (rule grows_set_references)
      from row_of_grows [OF 2(2) this] 1 2(1) show ?thesis by simp
    qed }
qed


lemma keeps_distinct_refl [simp]: "keeps_distinct w w"
  by (simp add: keeps_distinct_def)
















lemma put_links_simps [simp]:
  "projects (put_links r pk S G) = projects G"
  "rows (put_links r pk S G) = rows G"
  "written (put_links r pk S G) = written G"
  "links (put_links r pk S G) r pk = S"
  by (simp_all add: put_links_def)

lemma put_links_twice [simp]: "put_links r pk B (put_links r pk A G) = put_links r pk B G"
  by (simp add: put_links_def)

lemma put_links_idle: "links G r pk = S \<Longrightarrow> put_links r pk S G = G"
proof -
  assume "links G r pk = S"
  then have "(links G)(r := (links G r)(pk := S)) = links G"
    by (auto simp: fun_eq_iff)
  then show ?thesis by (simp add: put_links_def)
qed

lemma clear_put_links: "clear r pk G = put_links r pk {} G"
  by (simp add: clear_def put_links_def)

lemma add_put_links: "add r pk i G = put_links r pk (insert i (links G r pk)) G"
  by (simp add: add_def put_links_def)

lemma get_or_create_replay:
  assumes "get_or_create M L v w = (res, w1)"
    and "prefix (rows w1 L) (rows G L)"
  shows "get_or_create M L v G = (res, G)"
proof (cases res)
  case (Inl e)
  with assms(1) have "to_column M (Name L) v = Inl e"
    by (auto dest: get_or_create_raises)
  with Inl show ?thesis by (simp add: get_or_create_def)
next
  case (Inr i)
  with assms(1) have "row_of M L v w1 = Some i"
    by (auto dest: get_or_create_returns(5))
  then obtain x where x: "to_column M (Name L) v = Inr x" "index_of x (rows w1 L) = Some i"
    by (auto simp: row_of_def split: sum.splits)
  from index_of_prefix [OF x(2) assms(2)] x(1) Inr show ?thesis
    by (simp add: get_or_create_def)
qed

lemma add_all_replay:
  assumes "add_all M r pk items w = (res, w1)"
    and "\<forall>L. prefix (rows w1 L) (rows G L)"
    and "links G r pk = links w r pk"
  shows "add_all M r pk items G = (res, put_links r pk (links w1 r pk) G)"
  using assms
proof (induction items arbitrary: w G)
  case Nil
  then have "res = Inr ()" "w1 = w" by simp_all
  with Nil.prems(3) show ?case by (simp add: put_links_idle)
next
  case (Cons v items)
  obtain rg w0 where g: "get_or_create M (rel_model r) v w = (rg, w0)"
    by (cases "get_or_create M (rel_model r) v w")
  have p: "prefix (rows w1 (rel_model r)) (rows G (rel_model r))"
    using Cons.prems(2) by simp
  show ?case
  proof (cases rg)
    case (Inl e)
    with g Cons.prems(1) have 1: "res = Inl e" "w1 = w0" by auto
    from g Inl have 2: "w0 = w" by (auto dest: get_or_create_raises)
    have "get_or_create M (rel_model r) v G = (Inl e, G)"
      using get_or_create_replay [OF g, of G] p 1 2 Inl by simp
    with 1 2 Cons.prems(3) show ?thesis by (simp add: put_links_idle)
  next
    case (Inr i)
    with g Cons.prems(1) have a: "add_all M r pk items (add r pk i w0) = (res, w1)" by simp
    have "grows (add r pk i w0) w1" using a by (rule grows_add_all)
    then have "prefix (rows w0 (rel_model r)) (rows w1 (rel_model r))"
      by (simp add: grows_def add_def)
    with p have "prefix (rows w0 (rel_model r)) (rows G (rel_model r))"
      by (meson prefix_order.trans)
    from get_or_create_replay [OF g this] Inr
    have g': "get_or_create M (rel_model r) v G = (Inr i, G)" by simp
    have l0: "links w0 = links w" using g Inr by (auto dest: get_or_create_returns(2))
    have 1: "\<forall>L. prefix (rows w1 L) (rows (add r pk i G) L)"
      using Cons.prems(2) by (simp add: add_put_links)
    have 2: "links (add r pk i G) r pk = links (add r pk i w0) r pk"
      using Cons.prems(3) l0 by (simp add: add_put_links)
    from Cons.IH [OF a 1 2] g' show ?thesis
      by (simp add: add_put_links)
  qed
qed

lemma set_relation_replay:
  assumes "set_relation M r kvs pk w = (res, w1)"
    and "\<forall>L. prefix (rows w1 L) (rows G L)"
    and "links G r pk = links w1 r pk"
  shows "set_relation M r kvs pk G = (res, G)"
proof (cases "truthy (dict_get kvs (rel_key r) (JArr []))")
  case False
  with assms(1) show ?thesis by (simp add: set_relation_def)
next
  case True
  show ?thesis
  proof (cases "iterate (dict_get kvs (rel_key r) (JArr []))")
    case (Inl e)
    with True assms(1) have 1: "res = Inl e" "w1 = clear r pk w"
      by (simp_all add: set_relation_def)
    with assms(3) have "links G r pk = {}" by (simp add: clear_put_links)
    then have "clear r pk G = G" by (simp add: clear_put_links put_links_idle)
    with 1 True Inl show ?thesis by (simp add: set_relation_def)
  next
    case (Inr items)
    with True assms(1) have a: "add_all M r pk items (clear r pk w) = (res, w1)"
      by (simp add: set_relation_def)
    have 1: "\<forall>L. prefix (rows w1 L) (rows (clear r pk G) L)"
      using assms(2) by (simp add: clear_put_links)
    have 2: "links (clear r pk G) r pk = links (clear r pk w) r pk"
      by (simp add: clear_put_links)
    from add_all_replay [OF a 1 2] assms(3)
    have "add_all M r pk items (clear r pk G) = (res, G)"
      by (simp add: clear_put_links put_links_idle)
    with True Inr show ?thesis by (simp add: set_relation_def)
  qed
qed

lemma set_relations_replay:
  assumes "set_relations M rs kvs pk w = (res, w1)"
    and "distinct rs"
    and "\<forall>L. prefix (rows w1 L) (rows G L)"
    and "\<forall>r\<in>set rs. links G r pk = links w1 r pk"
  shows "set_relations M rs kvs pk G = (res, G)"
  using assms
proof (induction rs arbitrary: w)
  case Nil
  then show ?case by simp
next
  case (Cons r rs)
  obtain r0 w0 where s: "set_relation M r kvs pk w = (r0, w0)"
    by (cases "set_relation M r kvs pk w")
  show ?case
  proof (cases r0)
    case (Inl e)
    with s Cons.prems(1) have 1: "res = Inl e" "w1 = w0" by auto
    from set_relation_replay [OF s] Cons.prems(3,4) 1
    have "set_relation M r kvs pk G = (Inl e, G)" using Inl by simp
    with 1 show ?thesis by simp
  next
    case (Inr u)
    with s Cons.prems(1) have t: "set_relations M rs kvs pk w0 = (res, w1)" by simp
    have g: "grows w0 w1" using t by (rule grows_set_relations)
    have p: "\<forall>L. prefix (rows w0 L) (rows G L)"
    proof
      fix L
      from g have "prefix (rows w0 L) (rows w1 L)" by (simp add: grows_def)
      with Cons.prems(3) show "prefix (rows w0 L) (rows G L)" by (meson prefix_order.trans)
    qed
    from Cons.prems(2) have n: "r \<notin> set rs" by simp
    then have "links w1 r = links w0 r" using set_relations_frame(3) [OF t] by blast
    with Cons.prems(4) have l: "links G r pk = links w0 r pk" by simp
    from set_relation_replay [OF s p l] Inr
    have 1: "set_relation M r kvs pk G = (Inr u, G)" by simp
    from Cons.prems have "distinct rs" "\<forall>r\<in>set rs. links G r pk = links w1 r pk" by simp_all
    from Cons.IH [OF t this(1) Cons.prems(3) this(2)] 1 show ?thesis by simp
  qed
qed

lemma set_reference_replay:
  assumes "set_reference M f kvs (pk, a) w = (rr, wa)"
    and "prefix (rows wa (ref_model f)) (rows G (ref_model f))"
  shows "(\<forall>e. rr = Inl e \<longrightarrow> set_reference M f kvs (pk, b) G = (Inl e, G)) \<and>
         (\<forall>obj. rr = Inr obj \<longrightarrow>
            set_reference M f kvs (pk, b) G =
              (Inr (pk, if truthy (dict_get kvs (ref_key f) JNull)
                        then b\<lparr>refs := (refs b)(f := refs (snd obj) f)\<rparr> else b), G))"
proof (cases "truthy (dict_get kvs (ref_key f) JNull)")
  case False
  with assms(1) show ?thesis by (auto simp: set_reference_def)
next
  case True
  let ?v = "dict_get kvs (ref_key f) JNull"
  obtain rg w0 where g: "get_or_create M (ref_model f) ?v w = (rg, w0)"
    by (cases "get_or_create M (ref_model f) ?v w")
  show ?thesis
  proof (cases rg)
    case (Inl e)
    with g True assms(1) have 1: "rr = Inl e" "wa = w0"
      by (auto simp: set_reference_def bind_step_def)
    from get_or_create_replay [OF g] assms(2) 1 Inl
    have "get_or_create M (ref_model f) ?v G = (Inl e, G)" by simp
    with True 1 show ?thesis by (simp add: set_reference_def bind_step_def)
  next
    case (Inr i)
    with g True assms(1) have 1: "rr = Inr (pk, a\<lparr>refs := (refs a)(f := Some i)\<rparr>)" "wa = w0"
      by (auto simp: set_reference_def bind_step_def)
    from get_or_create_replay [OF g] assms(2) 1 Inr
    have "get_or_create M (ref_model f) ?v G = (Inr i, G)" by simp
    with True 1 show ?thesis by (simp add: set_reference_def bind_step_def)
  qed
qed

lemma set_references_replay:
  assumes "set_references M fs kvs (pk, a) w = (rr, wa)"
    and "\<forall>L. prefix (rows wa L) (rows G L)"
  shows "(\<forall>e. rr = Inl e \<longrightarrow> set_references M fs kvs (pk, b) G = (Inl e, G)) \<and>
         (\<forall>obj. rr = Inr obj \<longrightarrow>
            (\<exists>b'. set_references M fs kvs (pk, b) G = (Inr (pk, b'), G) \<and>
               project_id b' = project_id b \<and> project_name b' = project_name b \<and>
               project_status b' = project_status b \<and>
               (\<forall>f. refs b' f =
                  (if f \<in> set fs \<and> truthy (dict_get kvs (ref_key f) JNull)
                   then refs (snd obj) f else refs b f))))"
  using assms
proof (induction fs arbitrary: a b w)
  case Nil
  then show ?case by auto
next
  case (Cons f fs)
  obtain r0 w0 where s: "set_reference M f kvs (pk, a) w = (r0, w0)"
    by (cases "set_reference M f kvs (pk, a) w")
  show ?case
  proof (cases r0)
    case (Inl e)
    with s Cons.prems(1) have 1: "rr = Inl e" "wa = w0" by auto
    from set_reference_replay [OF s, of G b] Cons.prems(2) 1 Inl
    have "set_reference M f kvs (pk, b) G = (Inl e, G)" by simp
    with 1 show ?thesis by simp
  next
    case (Inr o0)
    with s Cons.prems(1) have t: "set_references M fs kvs o0 w0 = (rr, wa)" by simp
    from set_reference_returns(1) [OF s [unfolded Inr]] have o0: "o0 = (pk, snd o0)"
      by (simp add: prod_eq_iff)
    have "grows w0 wa" using t by (rule grows_set_references)
    then have "prefix (rows w0 (ref_model f)) (rows wa (ref_model f))" by (simp add: grows_def)
    with Cons.prems(2) have p: "prefix (rows w0 (ref_model f)) (rows G (ref_model f))"
      by (meson prefix_order.trans)
    let ?b0 = "if truthy (dict_get kvs (ref_key f) JNull)
               then b\<lparr>refs := (refs b)(f := refs (snd o0) f)\<rparr> else b"
    from set_reference_replay [OF s p, of b] Inr
    have 1: "set_reference M f kvs (pk, b) G = (Inr (pk, ?b0), G)" by simp
    from t o0 have t': "set_references M fs kvs (pk, snd o0) w0 = (rr, wa)" by simp
    note ih = Cons.IH [OF t' Cons.prems(2), of ?b0]
    show ?thesis
    proof (intro conjI allI impI)
      fix e assume "rr = Inl e"
      with ih 1 show "set_references M (f # fs) kvs (pk, b) G = (Inl e, G)" by simp
    next
      fix obj assume rr: "rr = Inr obj"
      with ih obtain b' where
        b': "set_references M fs kvs (pk, ?b0) G = (Inr (pk, b'), G)"
            "project_id b' = project_id ?b0" "project_name b' = project_name ?b0"
            "project_status b' = project_status ?b0"
            "\<forall>f'. refs b' f' =
                  (if f' \<in> set fs \<and> truthy (dict_get kvs (ref_key f') JNull)
                   then refs (snd obj) f' else refs ?b0 f')"
        by blast
      have keep: "refs (snd obj) f = refs (snd o0) f" if "f \<notin> set fs"
        using set_references_returns(5) [OF t [unfolded rr], of f] that by simp
      have "\<forall>f'. refs b' f' =
                  (if f' \<in> set (f # fs) \<and> truthy (dict_get kvs (ref_key f') JNull)
                   then refs (snd obj) f' else refs b f')"
        using b'(5) keep by auto
      with b' 1 show "\<exists>b'. set_references M (f # fs) kvs (pk, b) G = (Inr (pk, b'), G) \<and>
               project_id b' = project_id b \<and> project_name b' = project_name b \<and>
               project_status b' = project_status b \<and>
               (\<forall>f'. refs b' f' =
                  (if f' \<in> set (f # fs) \<and> truthy (dict_get kvs (ref_key f') JNull)
                   then refs (snd obj) f' else refs b f'))"
        by (intro exI [of _ b']) (simp split: if_splits)
    qed
  qed
qed

lemma save_raises: "save M obj w = (Inl e, w') \<Longrightarrow> w' = w"
  by (auto simp: save_def split: sum.splits)

lemma save_replay:
  assumes "save M (pk, a) wa = (rs, wb)"
    and "same_columns M a b"
    and "\<forall>u. rs = Inr u \<longrightarrow> refs b = refs a \<and> projects G = projects wb"
    and "pk < length (projects wa)"
  shows "save M (pk, b) G = (rs, G)"
proof (cases rs)
  case (Inl e)
  with assms(1,2) show ?thesis
    by (auto simp: save_def same_columns_def split: sum.splits)
next
  case (Inr u)
  with assms(3) have r: "refs b = refs a" and p: "projects G = projects wb" by simp_all
  from assms(1) Inr obtain k n st where
    c: "to_column M ProjectId (project_id a) = Inr k"
       "to_column M ProjectName (project_name a) = Inr n"
       "to_column M ProjectStatus (project_status a) = Inr st"
    and wb: "projects wb = (projects wa)[pk := \<lparr>project_id = k, project_name = n,
               project_status = st, refs = refs a\<rparr>]"
    by (auto simp: save_def split: sum.splits)
  have "(projects G)[pk := \<lparr>project_id = k, project_name = n,
               project_status = st, refs = refs a\<rparr>] = projects G"
    unfolding p wb by simp
  moreover from c assms(2) have
       "to_column M ProjectId (project_id b) = Inr k"
       "to_column M ProjectName (project_name b) = Inr n"
       "to_column M ProjectStatus (project_status b) = Inr st"
    by (simp_all add: same_columns_def)
  ultimately show ?thesis
    using r Inr by (simp add: save_def)
qed

lemma with_fields_simps [simp]:
  "project_id (with_fields kvs p) = project_id p"
  "refs (with_fields kvs p) = refs p"
  by (simp_all add: with_fields_def)

lemma apply_fields_with_fields:
  "apply_fields M kvs obj =
     bind_step (set_references M reference_fields kvs (fst obj, with_fields kvs (snd obj))) (\<lambda>obj'.
     bind_step (save M obj') (\<lambda>u.
     bind_step (set_relations M relation_fields kvs (fst obj)) (\<lambda>u w.
       (Inr Saved, write_line Stdout (SuccessfullyProcessed (project_id (snd obj))) w))))"
  by (simp add: apply_fields_def with_fields_def Let_def)

lemma with_fields_same_columns:
  "same_columns M p q \<Longrightarrow> same_columns M (with_fields kvs p) (with_fields kvs q)"
  by (auto simp: same_columns_def with_fields_def dict_get_def split: option.splits)

lemma with_fields_saved_columns:
  assumes "stable_columns M"
    and "to_column M ProjectId (project_id p) = Inr k"
    and "to_column M ProjectName (project_name (with_fields kvs p)) = Inr n"
    and "to_column M ProjectStatus (project_status (with_fields kvs p)) = Inr st"
  shows "same_columns M (with_fields kvs p)
           (with_fields kvs \<lparr>project_id = k, project_name = n, project_status = st, refs = R\<rparr>)"
proof -
  from assms have "to_column M ProjectId k = Inr k" "to_column M ProjectName n = Inr n"
    "to_column M ProjectStatus st = Inr st"
    unfolding stable_columns_def by blast+
  with assms(2-4) show ?thesis
    by (auto simp: same_columns_def with_fields_def dict_get_def split: option.splits)
qed

lemma apply_fields_replay:
  assumes st: "stable_columns M"
    and A: "apply_fields M kvs (pk, p) w0 = (res, F)"
    and pk: "pk < length (projects w0)"
    and sc: "same_columns M p (projects w0 ! pk)"
    and G: "projects G = projects F" "rows G = rows F" "links G = links F"
  shows "\<exists>G'. apply_fields M kvs (pk, projects F ! pk) G = (res, G') \<and>
           projects G' = projects F \<and> rows G' = rows F \<and> links G' = links F"
proof -
  let ?q = "projects F ! pk"
  let ?p1 = "with_fields kvs p"
  let ?q1 = "with_fields kvs ?q"
  obtain rr wa where r1: "set_references M reference_fields kvs (pk, ?p1) w0 = (rr, wa)"
    by (cases "set_references M reference_fields kvs (pk, ?p1) w0")
  have pa: "projects wa = projects w0" using set_references_frame(1) [OF r1] .
  show ?thesis
  proof (cases rr)
    case (Inl e)
    with A r1 have 1: "res = Inl e" "F = wa"
      by (simp_all add: apply_fields_with_fields bind_step_def)
    have "\<forall>L. prefix (rows wa L) (rows G L)" using G(2) 1 by simp
    from set_references_replay [OF r1 this, of ?q1] Inl
    have "set_references M reference_fields kvs (pk, ?q1) G = (Inl e, G)" by simp
    then have "apply_fields M kvs (pk, ?q) G = (Inl e, G)"
      by (simp add: apply_fields_with_fields bind_step_def)
    with 1 G show ?thesis by simp
  next
    case (Inr obj)
    from set_references_returns(1-4) [OF r1 [unfolded Inr]]
    have o: "obj = (pk, snd obj)" and ca: "project_id (snd obj) = project_id ?p1"
      "project_name (snd obj) = project_name ?p1" "project_status (snd obj) = project_status ?p1"
      by (simp_all add: prod_eq_iff)
    let ?a = "snd obj"
    obtain rs wb where s1: "save M (pk, ?a) wa = (rs, wb)"
      by (cases "save M (pk, ?a) wa")
    have pkl: "pk < length (projects wa)" using pk pa by simp
    show ?thesis
    proof (cases rs)
      case (Inl e)
      with A r1 s1 o \<open>rr = Inr obj\<close> have 1: "res = Inl e" "F = wb"
        by (simp_all add: apply_fields_with_fields bind_step_def)
      from save_raises s1 Inl have wb: "wb = wa" by blast
      have q: "?q = projects w0 ! pk" using 1 wb pa by simp
      have "same_columns M ?p1 ?q1"
        unfolding q using sc by (rule with_fields_same_columns)
      then have sc1: "same_columns M ?a ?q1" using ca by (simp add: same_columns_def)
      have "\<forall>L. prefix (rows wa L) (rows G L)" using G(2) 1 wb by simp
      from set_references_replay [OF r1 this, of ?q1] \<open>rr = Inr obj\<close> obtain b' where
        b': "set_references M reference_fields kvs (pk, ?q1) G = (Inr (pk, b'), G)"
          "project_id b' = project_id ?q1" "project_name b' = project_name ?q1"
          "project_status b' = project_status ?q1"
        by blast
      from sc1 b'(2-4) have "same_columns M ?a b'" by (simp add: same_columns_def)
      from save_replay [OF s1 this _ pkl, of G] Inl
      have "save M (pk, b') G = (Inl e, G)" by simp
      with b'(1) have "apply_fields M kvs (pk, ?q) G = (Inl e, G)"
        by (simp add: apply_fields_with_fields bind_step_def)
      with 1 G show ?thesis by simp
    next
      case (Inr u)
      obtain rm wc where m1: "set_relations M relation_fields kvs pk wb = (rm, wc)"
        by (cases "set_relations M relation_fields kvs pk wb")
      from A r1 s1 m1 o \<open>rr = Inr obj\<close> Inr
      have F: "(\<exists>e. rm = Inl e \<and> res = Inl e \<and> F = wc) \<or>
               ((\<exists>u'. rm = Inr u') \<and> res = Inr Saved \<and>
                F = write_line Stdout (SuccessfullyProcessed (project_id p)) wc)"
        by (cases rm) (auto simp: apply_fields_with_fields bind_step_def)
      then have Fc: "projects F = projects wc" "rows F = rows wc" "links F = links wc"
        by auto
      have pc: "projects wc = projects wb" using set_relations_frame(1) [OF m1] .
      from s1 Inr obtain k n s where
        c: "to_column M ProjectId (project_id ?a) = Inr k"
           "to_column M ProjectName (project_name ?a) = Inr n"
           "to_column M ProjectStatus (project_status ?a) = Inr s"
        and wb: "projects wb = (projects wa)[pk := \<lparr>project_id = k, project_name = n,
               project_status = s, refs = refs ?a\<rparr>]"
        by (auto simp: save_def split: sum.splits)
      have q: "?q = \<lparr>project_id = k, project_name = n, project_status = s, refs = refs ?a\<rparr>"
        unfolding Fc(1) pc wb using pkl by simp
      have "same_columns M ?p1 ?q1"
        unfolding q using st c ca by (intro with_fields_saved_columns) simp_all
      then have sc1: "same_columns M ?a ?q1" using ca by (simp add: same_columns_def)
      have gw: "grows wa wb" using s1 by (rule grows_save)
      have gc: "grows wb wc" using m1 by (rule grows_set_relations)
      have pre: "\<forall>L. prefix (rows wa L) (rows G L)"
        using grows_trans [OF gw gc] G(2) Fc(2) by (simp add: grows_def)
      from set_references_replay [OF r1 pre, of ?q1] \<open>rr = Inr obj\<close> obtain b' where
        b': "set_references M reference_fields kvs (pk, ?q1) G = (Inr (pk, b'), G)"
          "project_id b' = project_id ?q1" "project_name b' = project_name ?q1"
          "project_status b' = project_status ?q1"
          "\<forall>f. refs b' f =
                  (if f \<in> set reference_fields \<and> truthy (dict_get kvs (ref_key f) JNull)
                   then refs ?a f else refs ?q1 f)"
        by blast
      have rb: "refs b' = refs ?a"
        using b'(5) q by (auto simp: fun_eq_iff)
      from sc1 b'(2-4) have sc2: "same_columns M ?a b'" by (simp add: same_columns_def)
      have "projects G = projects wb" using G(1) Fc(1) pc by simp
      with rb have "\<forall>u. rs = Inr u \<longrightarrow> refs b' = refs ?a \<and> projects G = projects wb" by simp
      from save_replay [OF s1 sc2 this pkl] Inr
      have s2: "save M (pk, b') G = (Inr u, G)" by simp
      have d: "distinct relation_fields" by (simp add: relation_fields_def)
      have "\<forall>L. prefix (rows wc L) (rows G L)" using G(2) Fc(2) by simp
      moreover have "\<forall>r\<in>set relation_fields. links G r pk = links wc r pk"
        using G(3) Fc(3) by simp
      ultimately have m2: "set_relations M relation_fields kvs pk G = (rm, G)"
        using set_relations_replay [OF m1 d] by blast
      from F show ?thesis
      proof
        assume "\<exists>e. rm = Inl e \<and> res = Inl e \<and> F = wc"
        then obtain e where e: "rm = Inl e" "res = Inl e" by blast
        with b'(1) s2 m2 have "apply_fields M kvs (pk, ?q) G = (Inl e, G)"
          by (simp add: apply_fields_with_fields bind_step_def)
        with e G show ?thesis by simp
      next
        assume a: "(\<exists>u'. rm = Inr u') \<and> res = Inr Saved \<and>
                F = write_line Stdout (SuccessfullyProcessed (project_id p)) wc"
        with b'(1) s2 m2 have "apply_fields M kvs (pk, ?q) G =
            (Inr Saved, write_line Stdout (SuccessfullyProcessed (project_id ?q)) G)"
          by (auto simp: apply_fields_with_fields bind_step_def)
        with a G show ?thesis by simp
      qed
    qed
  qed
qed

lemma index_of_project_append_new:
  "index_of_project k ps = None \<Longrightarrow> project_id q = k \<Longrightarrow>
   index_of_project k (ps @ [q]) = Some (length ps)"
  by (induction ps) (auto split: if_splits)

lemma index_of_project_update:
  "index_of_project k ps = Some i \<Longrightarrow> project_id q = k \<Longrightarrow>
   index_of_project k (ps[i := q]) = Some i"
proof (induction ps arbitrary: i)
  case Nil
  then show ?case by simp
next
  case (Cons p ps)
  then show ?case by (cases i) (auto split: if_splits)
qed

lemma project_get_or_create_raises:
  "project_get_or_create M v n w = (Inl e, w') \<Longrightarrow> w' = w"
  by (auto simp: project_get_or_create_def split: sum.splits option.splits)

lemma project_get_or_create_object:
  assumes "stable_columns M"
    and "project_get_or_create M v n w = (Inr ((pk, p), created), w0)"
  shows "\<exists>k. to_column M ProjectId v = Inr k \<and> to_column M ProjectId (project_id p) = Inr k \<and>
           index_of_project k (projects w0) = Some pk \<and> pk < length (projects w0) \<and>
           same_columns M p (projects w0 ! pk)"
proof -
  from assms(2) obtain k where k: "to_column M ProjectId v = Inr k"
    by (auto simp: project_get_or_create_def split: sum.splits)
  with assms(1) have kk: "to_column M ProjectId k = Inr k"
    unfolding stable_columns_def by blast
  show ?thesis
  proof (cases "index_of_project k (projects w)")
    case (Some i)
    with assms(2) k have 1: "pk = i" "p = projects w ! i" "w0 = w"
      by (auto simp: project_get_or_create_def)
    from index_of_project_Some [OF Some] have "i < length (projects w)" "project_id (projects w ! i) = k"
      by simp_all
    with 1 Some k kk show ?thesis by (simp add: same_columns_def)
  next
    case None
    with assms(2) k obtain n' s' where
      c: "to_column M ProjectName n = Inr n'"
         "to_column M ProjectStatus (project_status_default M) = Inr s'"
      and 1: "pk = length (projects w)"
         "p = \<lparr>project_id = v, project_name = n, project_status = project_status_default M,
               refs = (\<lambda>f. None)\<rparr>"
         "projects w0 = projects w @ [\<lparr>project_id = k, project_name = n', project_status = s',
               refs = (\<lambda>f. None)\<rparr>]"
      by (auto simp: project_get_or_create_def split: sum.splits)
    from c assms(1) have cc: "to_column M ProjectName n' = Inr n'"
      "to_column M ProjectStatus s' = Inr s'"
      unfolding stable_columns_def by blast+
    have "index_of_project k (projects w0) = Some pk"
      unfolding 1 using None by (rule index_of_project_append_new) simp
    with k kk c cc 1 show ?thesis by (simp add: same_columns_def)
  qed
qed

lemma apply_fields_projects:
  assumes "apply_fields M kvs (pk, p) w0 = (res, F)"
  shows "projects F = projects w0 \<or>
         (\<exists>k n s R. to_column M ProjectId (project_id p) = Inr k \<and>
            projects F = (projects w0)[pk := \<lparr>project_id = k, project_name = n,
               project_status = s, refs = R\<rparr>])"
  using assms unfolding apply_fields_with_fields
proof (elim bind_stepE, goal_cases)
  case (1 e)
  then show ?case using set_references_frame(1) by simp
next
  case (2 a w1 e)
  from save_raises [OF 2(2)] set_references_frame(1) [OF 2(1)] show ?case by simp
next
  case (3 a w1 u w2 e)
  from set_references_returns(1,2) [OF 3(1)] have a: "fst a = pk" "project_id (snd a) = project_id p"
    by simp_all
  from 3(2) a obtain k n s where "to_column M ProjectId (project_id p) = Inr k"
    "projects w2 = (projects w1)[pk := \<lparr>project_id = k, project_name = n,
               project_status = s, refs = refs (snd a)\<rparr>]"
    by (auto simp: save_def split: sum.splits)
  with set_references_frame(1) [OF 3(1)] set_relations_frame(1) [OF 3(3)]
  show ?case by auto
next
  case (4 a w1 u w2 u' w3)
  from set_references_returns(1,2) [OF 4(1)] have a: "fst a = pk" "project_id (snd a) = project_id p"
    by simp_all
  from 4(2) a obtain k n s where "to_column M ProjectId (project_id p) = Inr k"
    "projects w2 = (projects w1)[pk := \<lparr>project_id = k, project_name = n,
               project_status = s, refs = refs (snd a)\<rparr>]"
    by (auto simp: save_def split: sum.splits)
  moreover have "projects F = projects w3" using 4(4) by auto
  ultimately show ?case
    using set_references_frame(1) [OF 4(1)] set_relations_frame(1) [OF 4(3)] by auto
qed

lemma project_get_or_create_raise_replay:
  assumes "project_get_or_create M v n w = (Inl e, w')" and "projects G = projects w"
  shows "project_get_or_create M v n G = (Inl e, G)"
  using assms by (auto simp: project_get_or_create_def split: sum.splits option.splits)

lemma reconcile_replay:
  assumes st: "stable_columns M"
    and R: "reconcile M True fname d w = (res, F)"
    and G: "projects G = projects F" "rows G = rows F" "links G = links F"
  shows "\<exists>res' G'. reconcile M True fname d G = (res', G') \<and>
           projects G' = projects F \<and> rows G' = rows F \<and> links G' = links F"
proof (cases d)
  case (JObj kvs)
  let ?pid = "dict_get kvs ''project_id'' JNull"
  let ?nd = "dict_get kvs ''project_name'' (JStr [])"
  show ?thesis
  proof (cases "truthy ?pid")
    case False
    with R JObj G show ?thesis by (auto simp: reconcile_def)
  next
    case True
    obtain rg w0 where g: "project_get_or_create M ?pid ?nd w = (rg, w0)"
      by (cases "project_get_or_create M ?pid ?nd w")
    show ?thesis
    proof (cases rg)
      case (Inl e)
      with R JObj True g have 1: "res = Inl e" "F = w0"
        by (simp_all add: reconcile_def bind_step_def)
      from g Inl have "w0 = w" by (auto dest: project_get_or_create_raises)
      with 1 G have "projects G = projects w" by simp
      from project_get_or_create_raise_replay [OF g [unfolded Inl] this]
      have "reconcile M True fname d G = (Inl e, G)"
        using JObj True by (simp add: reconcile_def bind_step_def)
      with G show ?thesis by blast
    next
      case (Inr a)
      obtain pk p created where a: "a = ((pk, p), created)" by (cases a) auto
      from project_get_or_create_object [OF st g [unfolded Inr a]] obtain k where
        k: "to_column M ProjectId ?pid = Inr k" "to_column M ProjectId (project_id p) = Inr k"
        and idx: "index_of_project k (projects w0) = Some pk"
        and pkl: "pk < length (projects w0)"
        and sc: "same_columns M p (projects w0 ! pk)"
        by blast
      let ?m = "if created then CreatedNewProject (project_id p) else FoundExistingProject (project_id p)"
      from R JObj True g Inr a
      have A: "apply_fields M kvs (pk, p) (write_line Stdout ?m w0) = (res, F)"
        by (auto simp: reconcile_def bind_step_def split: if_splits)
      have idxF: "index_of_project k (projects F) = Some pk"
        using apply_fields_projects [OF A] idx k(2)
        by (auto simp: index_of_project_update)
      then have gG: "project_get_or_create M ?pid ?nd G = (Inr ((pk, projects F ! pk), False), G)"
        using k(1) G(1) by (simp add: project_get_or_create_def)
      let ?G = "write_line Stdout (FoundExistingProject (project_id (projects F ! pk))) G"
      have "\<exists>G'. apply_fields M kvs (pk, projects F ! pk) ?G = (res, G') \<and>
           projects G' = projects F \<and> rows G' = rows F \<and> links G' = links F"
        using st A
      proof (rule apply_fields_replay)
        show "pk < length (projects (write_line Stdout ?m w0))" using pkl by simp
        show "same_columns M p (projects (write_line Stdout ?m w0) ! pk)" using sc by simp
        show "projects ?G = projects F" "rows ?G = rows F" "links ?G = links F"
          using G by simp_all
      qed
      moreover have "reconcile M True fname d G = apply_fields M kvs (pk, projects F ! pk) ?G"
        using JObj True gG by (simp add: reconcile_def bind_step_def)
      ultimately show ?thesis by auto
    qed
  qed
qed (use R G in \<open>auto simp: reconcile_def\<close>)

section \<open>The claims\<close>







text \<open>
  C10. When the reply of the model service has no \<^verbatim>\<open>"response"\<close> key, or its payload
  decodes to the empty object, the document is reported as an extraction failure: the
  state after the document is the state before it with the announcement and the failure
  line, so nothing of the reconciler (not its warning about a missing identifier either)
  is written, and the database is left as it was.
\<close>

theorem empty_payload_is_extraction_failure:
  assumes "readable e"
    and "model_reply e = NoResponseKey \<or> model_reply e = Response (Some (JObj []))"
  shows "process_file M upd e w = write_line Stderr (FailedToExtract (file_name e)) (announce e w) \<and>
         db (process_file M upd e w) = db w"
  using assms by (auto simp: process_file_readable)

theorem empty_payload_is_extraction_failure_witness:
  "readable \<lparr>file_name = ''report.PDF'', reader_result = Some ''text'', model_reply = NoResponseKey\<rparr> \<and>
   written (process_file (text_models False) True
      \<lparr>file_name = ''report.PDF'', reader_result = Some ''text'', model_reply = NoResponseKey\<rparr>
      empty_world) =
     [(Stdout, ProcessingPDF ''report.PDF''), (Stdout, ExtractingData),
      (Stderr, FailedToExtract ''report.PDF'')] \<and>
   db (process_file (text_models False) True
      \<lparr>file_name = ''report.PDF'', reader_result = Some ''text'', model_reply = NoResponseKey\<rparr>
      empty_world) = db empty_world"
proof -
  let ?e = "\<lparr>file_name = ''report.PDF'', reader_result = Some ''text'', model_reply = NoResponseKey\<rparr>"
  have r: "readable ?e" by (simp add: readable_def endswith_def lower_def)
  have m: "model_reply ?e = NoResponseKey \<or> model_reply ?e = Response (Some (JObj []))" by simp
  show ?thesis
    using r empty_payload_is_extraction_failure [OF r m, of "text_models False" True empty_world]
    by (simp add: announce_def endswith_def lower_def empty_world_def)
qed

text \<open>
  C3, at the failing input. The stored Project \<^verbatim>\<open>P-100\<close> is named \<^verbatim>\<open>Trial X\<close>; with the
  update option, the extraction \<^verbatim>\<open>{"project_id": "P-100", "project_name": null}\<close> has the
  key, so \<^verbatim>\<open>extracted_data.get('project_name', project.project_name)\<close> is \<^verbatim>\<open>None\<close> and
  the save writes it: on nullable columns the stored name becomes NULL; on columns that
  reject NULL the save raises and the document is reported as a database error.
\<close>

theorem null_name_overwrites_stored_name:
  "map project_name (projects (process_file (text_models True) True
      (document ''p.docx'' (JObj [(''project_id'', JStr ''P-100''), (''project_name'', JNull)]))
      trial_world)) = [JNull] \<and>
   map project_name (projects trial_world) = [JStr ''Trial X''] \<and>
   written (process_file (text_models False) True
      (document ''p.docx'' (JObj [(''project_id'', JStr ''P-100''), (''project_name'', JNull)]))
      trial_world) =
     [(Stdout, ProcessingDOCX ''p.docx''), (Stdout, ExtractingData),
      (Stdout, FoundExistingProject (JStr ''P-100'')),
      (Stderr, DatabaseError ''p.docx'' IntegrityError)]"
  by (simp add: run_defs)


text \<open>
  C4 as stated fails: a relation value that is a string is not treated as absent. With
  \<^verbatim>\<open>"deliverables": "CD"\<close> the loop runs over the characters: the lookup rows C and D
  are created and the deliverables of the Project, which were A and B, become C and D.
\<close>

theorem string_iterated_counterexample:
  "rows (process_file (text_models False) True string_relation trial_world) Deliverable =
     [JStr ''A'', JStr ''B'', JStr ''C'', JStr ''D''] \<and>
   links (process_file (text_models False) True string_relation trial_world) deliverables 0 = {2, 3} \<and>
   rows trial_world Deliverable = [JStr ''A'', JStr ''B''] \<and>
   links trial_world deliverables 0 = {0, 1}"
  by (auto simp: string_relation_def run_defs)





text \<open>
  C4, as the code has it. The command has no field normalizer: a relation value is used
  exactly when it is true in Python. A value that is missing or false (null, the empty
  list, the empty string, zero, false, the empty object) creates no lookup row and
  changes no set of that relation, however the document ends. A value that is true, in a
  document that is reconciled to the end, replaces the set by the rows of all the items
  that iterating over it yields: the elements of a list whatever their type, the
  characters of a string, the keys of an object.
\<close>

theorem relation_used_exactly_when_truthy:
  assumes "reconcile M upd fname (JObj kvs) w = (res, w')"
  shows "(\<not> truthy (dict_get kvs (rel_key r) (JArr [])) \<longrightarrow>
            rows w' (rel_model r) = rows w (rel_model r) \<and> links w' r = links w r) \<and>
         (truthy (dict_get kvs (rel_key r) (JArr [])) \<and> res = Inr Saved \<longrightarrow>
            (\<exists>items k. iterate (dict_get kvs (rel_key r) (JArr [])) = Inr items \<and>
               to_column M ProjectId (dict_get kvs ''project_id'' JNull) = Inr k \<and>
               links w' r (project_pk k w) =
                 {i. \<exists>v\<in>set items. row_of M (rel_model r) v w' = Some i} \<and>
               (\<forall>v\<in>set items. row_of M (rel_model r) v w' \<noteq> None)))"
proof (rule conjI; rule impI)
  assume "\<not> truthy (dict_get kvs (rel_key r) (JArr []))"
  with assms show "rows w' (rel_model r) = rows w (rel_model r) \<and> links w' r = links w r"
    by (rule reconcile_frame)
next
  assume "truthy (dict_get kvs (rel_key r) (JArr [])) \<and> res = Inr Saved"
  then have t: "truthy (dict_get kvs (rel_key r) (JArr []))" and "res = Inr Saved" by simp_all
  with assms have "reconcile M upd fname (JObj kvs) w = (Inr Saved, w')" by simp
  then obtain k w1 w2 where
    k: "to_column M ProjectId (dict_get kvs ''project_id'' JNull) = Inr k"
    and s: "set_relations M relation_fields kvs (project_pk k w) w1 = (Inr (), w2)"
    and e: "rows w' = rows w2" "links w' = links w2"
    by (rule reconcile_SavedE)
  have c: "row_of M (rel_model r) v w2 = row_of M (rel_model r) v w'" for v
    by (rule row_of_cong) (simp add: e(1))
  have d: "distinct relation_fields" by (simp add: relation_fields_def)
  have m: "r \<in> set relation_fields" by (cases r) (simp_all add: relation_fields_def)
  from set_relations_returns [OF s d m t] obtain items where
    "iterate (dict_get kvs (rel_key r) (JArr [])) = Inr items"
    "links w' r (project_pk k w) = {i. \<exists>v\<in>set items. row_of M (rel_model r) v w' = Some i}"
    "\<forall>v\<in>set items. row_of M (rel_model r) v w' \<noteq> None"
    unfolding c e(2) [symmetric] by blast
  with k show "\<exists>items k. iterate (dict_get kvs (rel_key r) (JArr [])) = Inr items \<and>
               to_column M ProjectId (dict_get kvs ''project_id'' JNull) = Inr k \<and>
               links w' r (project_pk k w) =
                 {i. \<exists>v\<in>set items. row_of M (rel_model r) v w' = Some i} \<and>
               (\<forall>v\<in>set items. row_of M (rel_model r) v w' \<noteq> None)"
    by blast
qed

theorem relation_used_exactly_when_truthy_witness:
  "fst (reconcile (text_models False) True ''p.docx''
          (JObj [(''project_id'', JStr ''P-100''), (''deliverables'', JStr ''CD'')]) trial_world) = Inr Saved \<and>
   truthy (dict_get [(''project_id'', JStr ''P-100''), (''deliverables'', JStr ''CD'')]
             (rel_key deliverables) (JArr [])) \<and>
   links (snd (reconcile (text_models False) True ''p.docx''
          (JObj [(''project_id'', JStr ''P-100''), (''deliverables'', JStr ''CD'')]) trial_world))
      deliverables 0 = {2, 3} \<and>
   \<not> truthy (dict_get [(''project_id'', JStr ''P-100''), (''deliverables'', JStr ''CD'')]
             (rel_key ingredients) (JArr [])) \<and>
   rows (snd (reconcile (text_models False) True ''p.docx''
          (JObj [(''project_id'', JStr ''P-100''), (''deliverables'', JStr ''CD'')]) trial_world))
      Ingredient = rows trial_world Ingredient \<and>
   links (snd (reconcile (text_models False) True ''p.docx''
          (JObj [(''project_id'', JStr ''P-100''), (''deliverables'', JStr ''CD'')]) trial_world))
      ingredients = links trial_world ingredients"
proof -
  let ?kvs = "[(''project_id'', JStr ''P-100''), (''deliverables'', JStr ''CD'')]"
  let ?R = "reconcile (text_models False) True ''p.docx'' (JObj ?kvs) trial_world"
  have f: "fst ?R = Inr Saved" by (simp add: run_defs)
  have h: "?R = (fst ?R, snd ?R)" by simp
  have t: "truthy (dict_get ?kvs (rel_key deliverables) (JArr []))" by (simp add: dict_get_def)
  have n: "\<not> truthy (dict_get ?kvs (rel_key ingredients) (JArr []))" by (simp add: dict_get_def)
  from relation_used_exactly_when_truthy [OF h, of deliverables] t f
  obtain items k where it: "iterate (dict_get ?kvs (rel_key deliverables) (JArr [])) = Inr items"
    and k: "to_column (text_models False) ProjectId (dict_get ?kvs ''project_id'' JNull) = Inr k"
    and l: "links (snd ?R) deliverables (project_pk k trial_world) =
              {i. \<exists>v\<in>set items. row_of (text_models False) (rel_model deliverables) v (snd ?R) = Some i}"
    by blast
  from it have items: "items = [JStr ''C'', JStr ''D'']" by (simp add: dict_get_def)
  from k have kk: "k = JStr ''P-100''" by (simp add: dict_get_def text_models_def)
  have pk: "project_pk (JStr ''P-100'') trial_world = 0"
    by (simp add: project_pk_def trial_world_def)
  have rw: "rows (snd ?R) Deliverable = [JStr ''A'', JStr ''B'', JStr ''C'', JStr ''D'']"
    by (simp add: run_defs)
  have tc: "to_column (text_models False) (Name Deliverable) (JStr s) = Inr (JStr s)" for s
    by (simp add: text_models_def)
  have x: "row_of (text_models False) Deliverable (JStr ''C'') (snd ?R) = Some 2"
    and y: "row_of (text_models False) Deliverable (JStr ''D'') (snd ?R) = Some 3"
    by (simp_all add: row_of_def rw tc)
  have a: "links (snd ?R) deliverables 0 = {2, 3}"
    using l unfolding items kk pk by (auto simp: x y)
  from relation_used_exactly_when_truthy [OF h, of ingredients] n
  have b: "rows (snd ?R) Ingredient = rows trial_world Ingredient"
    and c: "links (snd ?R) ingredients = links trial_world ingredients"
    by simp_all
  show ?thesis
    by (rule conjI [OF f conjI [OF t conjI [OF a conjI [OF n conjI [OF b c]]]]])
qed




text \<open>
  C7. With the update option, processing a document a second time leaves the database as
  the first processing left it: the same Project rows with the same fields and
  references, the same lookup rows (none is added) and the same relation sets. This holds
  for every directory entry, whatever the first processing did (also when it raised),
  on columns that store again unchanged what they have stored.
\<close>

theorem reprocessing_with_update_is_idempotent:
  assumes "stable_columns M"
  shows "db (process_file M True e (process_file M True e w)) = db (process_file M True e w)"
proof (cases "readable e")
  case False
  then show ?thesis by (rule process_file_not_readable)
next
  case True
  let ?F = "process_file M True e w"
  show ?thesis
  proof (cases "call_phi3_for_extraction (model_reply e)")
    case None
    with True show ?thesis by (simp add: process_file_readable)
  next
    case (Some d)
    show ?thesis
    proof (cases "truthy d")
      case False
      with True Some show ?thesis by (simp add: process_file_readable)
    next
      case t: True
      obtain res F where R: "reconcile M True (file_name e) d (announce e w) = (res, F)"
        by (cases "reconcile M True (file_name e) d (announce e w)")
      with True Some t have F: "db ?F = db F"
        by (cases res) (simp_all add: process_file_readable)
      then have "projects (announce e ?F) = projects F" "rows (announce e ?F) = rows F"
        "links (announce e ?F) = links F"
        using db_announce [of e ?F] by (simp_all add: db_def)
      from reconcile_replay [OF assms R this] obtain res' G' where
        R': "reconcile M True (file_name e) d (announce e ?F) = (res', G')"
        and G': "projects G' = projects F" "rows G' = rows F" "links G' = links F"
        by blast
      from True Some t R' have "db (process_file M True e ?F) = db G'"
        by (cases res') (simp_all add: process_file_readable)
      with G' F show ?thesis by (simp add: db_def)
    qed
  qed
qed

theorem reprocessing_with_update_is_idempotent_witness:
  "stable_columns (text_models False) \<and>
   db (process_file (text_models False) True
         (document ''p.docx'' (JObj [(''project_id'', JStr ''P-100''), (''project_name'', JStr ''Renamed''),
            (''sponsor_name'', JStr ''Acme''), (''deliverables'', JArr [JStr ''C''])]))
         (process_file (text_models False) True
            (document ''p.docx'' (JObj [(''project_id'', JStr ''P-100''), (''project_name'', JStr ''Renamed''),
               (''sponsor_name'', JStr ''Acme''), (''deliverables'', JArr [JStr ''C''])]))
            trial_world)) =
   db (process_file (text_models False) True
         (document ''p.docx'' (JObj [(''project_id'', JStr ''P-100''), (''project_name'', JStr ''Renamed''),
            (''sponsor_name'', JStr ''Acme''), (''deliverables'', JArr [JStr ''C''])]))
         trial_world)"
proof -
  have s: "stable_columns (text_models False)"
    by (auto simp: stable_columns_def text_models_def split: json.splits if_splits)
  show ?thesis
    by (rule conjI [OF s reprocessing_with_update_is_idempotent [OF s]])
qed

end
